theory Spec2Isabelle
  imports Complex_Main
begin

section \<open>Rasters, Python slices and errors\<close>

text \<open>
  A two-dimensional numpy array is a list of rows. The occupancy canvas is the slice
  \<open>ws_bag[:, :, slice_no]\<close>; its cells hold labels (0 is background, the bag boundary
  holds \<open>bb_label\<close>, objects hold their label, the liquid rule writes \<open>-1\<close> as void marker).
  An object's raster \<open>data\<close> has the same representation.
\<close>

type_synonym image = "int list list"

datatype py_error = IndexError | ValueError | UnboundLocalError | OverflowError | RuntimeError
  | TypeError | LibraryError

definition nrows :: "'a list list \<Rightarrow> nat" where
  "nrows m = length m"

definition ncols :: "'a list list \<Rightarrow> nat" where
  "ncols m = (case m of [] \<Rightarrow> 0 | r # _ \<Rightarrow> length r)"

definition rect :: "'a list list \<Rightarrow> bool" where
  "rect m = list_all (\<lambda>r. length r = ncols m) m"

text \<open>
  Python's slice \<open>a[start:stop]\<close> on an axis of length \<open>n\<close>: a negative bound counts from
  the end, every bound is clipped to \<open>0..n\<close>, and the slice is empty when the clipped
  stop does not exceed the clipped start.
\<close>

definition slice_index :: "nat \<Rightarrow> int \<Rightarrow> nat" where
  "slice_index n i = (if i < 0 then nat (max 0 (i + int n)) else min (nat i) n)"

definition slice_lo :: "nat \<Rightarrow> int \<Rightarrow> int \<Rightarrow> nat" where
  "slice_lo n start stop = slice_index n start"

definition slice_len :: "nat \<Rightarrow> int \<Rightarrow> int \<Rightarrow> nat" where
  "slice_len n start stop = slice_index n stop - slice_index n start"

definition py_slice :: "'a list \<Rightarrow> int \<Rightarrow> int \<Rightarrow> 'a list" where
  "py_slice xs start stop =
     take (slice_len (length xs) start stop) (drop (slice_lo (length xs) start stop) xs)"

section \<open>Committing an object to the canvas: \<open>place_object_in_bag\<close>\<close>

text \<open>
  \<open>nonzero_idx b\<close> is \<open>np.where(b)\<close>: the index pairs of the nonzero cells, row-major.
\<close>

definition nonzero_idx :: "image \<Rightarrow> (nat \<times> nat) list" where
  "nonzero_idx b =
     concat (map (\<lambda>i. map (\<lambda>j. (i, j)) (filter (\<lambda>j. b ! i ! j \<noteq> 0) [0..<length (b ! i)]))
                 [0..<length b])"

text \<open>
  One element of the fancy-index assignment \<open>view[nz] = b_data[nz]\<close>, where the view is the
  window of the canvas with origin \<open>(r0, c0)\<close> and shape \<open>(s0, s1)\<close>. numpy raises
  IndexError for an index outside the view's shape.
\<close>

definition view_set :: "nat \<times> nat \<Rightarrow> nat \<times> nat \<Rightarrow> image \<Rightarrow> nat \<times> nat \<Rightarrow> int \<Rightarrow> py_error + image" where
  "view_set org shp canvas ij v =
     (if fst ij < fst shp \<and> snd ij < snd shp
      then Inr (canvas[fst org + fst ij := (canvas ! (fst org + fst ij))[snd org + snd ij := v]])
      else Inl IndexError)"

fun view_assign :: "nat \<times> nat \<Rightarrow> nat \<times> nat \<Rightarrow> image \<Rightarrow> (nat \<times> nat) list \<Rightarrow> image \<Rightarrow> py_error + image" where
  "view_assign org shp b [] canvas = Inr canvas"
| "view_assign org shp b (ij # nz) canvas =
     (case view_set org shp canvas ij (b ! fst ij ! snd ij) of
        Inl e \<Rightarrow> Inl e
      | Inr canvas' \<Rightarrow> view_assign org shp b nz canvas')"

text \<open>
  \<open>place_object_in_bag\<close> (source lines 1835-1858), with \<open>bag_obj.pose\<close> as \<open>pose\<close> and
  \<open>bag_obj.data\<close> as \<open>raster\<close>. \<open>s_shape\<close> is the shape of the canvas window selected by
  the two slices; \<open>b_data\<close> is the object's raster cut to that shape.
\<close>

definition window_org :: "image \<Rightarrow> int \<times> int \<Rightarrow> image \<Rightarrow> nat \<times> nat" where
  "window_org canvas pose raster =
     (slice_lo (nrows canvas) (fst pose) (fst pose + int (nrows raster)),
      slice_lo (ncols canvas) (snd pose) (snd pose + int (ncols raster)))"

definition window_shape :: "image \<Rightarrow> int \<times> int \<Rightarrow> image \<Rightarrow> nat \<times> nat" where
  "window_shape canvas pose raster =
     (slice_len (nrows canvas) (fst pose) (fst pose + int (nrows raster)),
      slice_len (ncols canvas) (snd pose) (snd pose + int (ncols raster)))"

definition place_object_in_bag :: "image \<Rightarrow> int \<times> int \<Rightarrow> image \<Rightarrow> py_error + image" where
  "place_object_in_bag canvas pose raster =
     (let s_shape = window_shape canvas pose raster;
          b_data = map (take (snd s_shape)) (take (fst s_shape) raster);
          nz = nonzero_idx b_data
      in view_assign (window_org canvas pose raster) s_shape b_data nz canvas)"

text \<open>
  The pixel of the truncated raster that lies over canvas cell \<open>(r, c)\<close>, if there is one.
\<close>

definition covering :: "image \<Rightarrow> int \<times> int \<Rightarrow> image \<Rightarrow> nat \<Rightarrow> nat \<Rightarrow> int option" where
  "covering canvas pose raster r c =
     (let org = window_org canvas pose raster; shp = window_shape canvas pose raster
      in if fst org \<le> r \<and> r - fst org < fst shp \<and> r - fst org < length raster
            \<and> snd org \<le> c \<and> c - snd org < snd shp \<and> c - snd org < length (raster ! (r - fst org))
         then Some (raster ! (r - fst org) ! (c - snd org)) else None)"


section \<open>Overlap resolution: choosing the intersection component\<close>

text \<open>
  Source lines 1484-1494. \<open>lab\<close> is the image returned by \<open>skimage.measure.label\<close> for
  the boolean intersection: 0 for background and the index of its connected component for
  every foreground cell, components numbered from 1 in the order in which a raster scan
  meets them. \<open>pix_cnt\<close> is the list comprehension of line 1488, \<open>argmax\<close> is
  \<open>np.argmax\<close> (the first position of the maximum), and both \<open>.max()\<close> of an empty
  array and \<open>np.argmax\<close> of an empty list raise ValueError.
\<close>

definition img_max :: "nat list list \<Rightarrow> nat" where
  "img_max lab = fold max (concat lab) 0"

definition pix_cnt :: "nat list list \<Rightarrow> nat list" where
  "pix_cnt lab = map (\<lambda>x. sum_list (filter (\<lambda>v. v = x) (concat lab)) div x) [1..<img_max lab + 1]"

definition argmax :: "nat list \<Rightarrow> nat" where
  "argmax xs = length (takeWhile (\<lambda>v. v \<noteq> fold max xs 0) xs)"

definition max_ind :: "nat list list \<Rightarrow> nat" where
  "max_ind lab = argmax (pix_cnt lab) + 1"

definition select_component :: "nat list list \<Rightarrow> py_error + bool list list" where
  "select_component lab =
     (if concat lab = [] \<or> pix_cnt lab = [] then Inl ValueError
      else Inr (map (map (\<lambda>v. v = max_ind lab)) lab))"

text \<open>The number of cells of the component \<open>x\<close>, counted directly.\<close>

definition pixel_count :: "nat list list \<Rightarrow> nat \<Rightarrow> nat" where
  "pixel_count lab x = length (filter (\<lambda>v. v = x) (concat lab))"


section \<open>Primitive rasterizer: the bounding-box crop and \<open>create_rectanguloid\<close>\<close>

text \<open>
  The crop shared by \<open>create_ellipse\<close> (lines 255-262), \<open>create_rectanguloid\<close> (lines
  291-298), \<open>create_trapezoid\<close> (lines 343-350) and \<open>create_custom_object\<close> (lines 454-461):
  \<open>box_coord = np.where(mask)\<close>, \<open>box_dim = max - min + 1\<close> on each axis, and the slice
  \<open>mask[min : min + box_dim + 1]\<close> on each axis. \<open>.max()\<close> of an empty index array raises
  ValueError.
\<close>

definition crop_bbox :: "image \<Rightarrow> py_error + image" where
  "crop_bbox mask_img =
     (let box_coord = nonzero_idx mask_img in
      if box_coord = [] then Inl ValueError
      else
        let rs = map fst box_coord; cs = map snd box_coord;
            rmin = fold min rs (hd rs); rmax = fold max rs (hd rs);
            cmin = fold min cs (hd cs); cmax = fold max cs (hd cs);
            box_dim = (rmax - rmin + 1, cmax - cmin + 1)
        in Inr (map (\<lambda>row. py_slice row (int cmin) (int cmin + int (snd box_dim) + 1))
                    (py_slice mask_img (int rmin) (int rmin + int (fst box_dim) + 1))))"

text \<open>\<open>np.zeros((n, m))\<close> and the slice assignment \<open>mask[a0:b0, a1:b1] = v\<close>.\<close>

definition zeros :: "nat \<Rightarrow> nat \<Rightarrow> image" where
  "zeros n m = replicate n (replicate m 0)"

definition in_slice :: "nat \<Rightarrow> int \<Rightarrow> int \<Rightarrow> nat \<Rightarrow> bool" where
  "in_slice n start stop i \<longleftrightarrow>
     slice_lo n start stop \<le> i \<and> i < slice_lo n start stop + slice_len n start stop"

definition slice_fill :: "image \<Rightarrow> int \<times> int \<Rightarrow> int \<times> int \<Rightarrow> int \<Rightarrow> image" where
  "slice_fill mask_img rs cs v =
     map (\<lambda>(i, row).
            if in_slice (nrows mask_img) (fst rs) (snd rs) i
            then map (\<lambda>(j, x). if in_slice (ncols mask_img) (fst cs) (snd cs) j then v else x)
                     (zip [0..<length row] row)
            else row)
         (zip [0..<length mask_img] mask_img)"

text \<open>
  \<open>isqrt n\<close> is the integer part of the square root: line 281 takes
  \<open>2 * int(sqrt(d0**2 + d1**2) // 2) + 1\<close>, and the floor of half a square root is the
  half of its integer part.
\<close>

definition isqrt :: "nat \<Rightarrow> nat" where
  "isqrt n = length (takeWhile (\<lambda>k. k * k \<le> n) [1..<n + 2])"

text \<open>
  \<open>create_rectanguloid\<close> (lines 268-301). \<open>rotate_fn\<close> stands for
  \<open>scipy.ndimage.rotate(mask, theta[0], axes=(1,0), order=0)\<close>, a library function outside
  the repository; the angle type is left open. The result is \<open>self.data\<close>, and
  \<open>self.dim\<close> is its shape.
\<close>

definition create_rectanguloid ::
    "('th \<Rightarrow> image \<Rightarrow> image) \<Rightarrow> nat \<times> nat \<Rightarrow> 'th \<Rightarrow> py_error + bool list list" where
  "create_rectanguloid rotate_fn dims theta =
     (let max_dim = 2 * (isqrt (fst dims * fst dims + snd dims * snd dims) div 2) + 1;
          mask_img = zeros max_dim max_dim;
          start_pt = ((int max_dim - 1) div 2 - int (fst dims) div 2 + 1,
                      (int max_dim - 1) div 2 - int (snd dims) div 2 + 1);
          mask_img = slice_fill mask_img (fst start_pt, fst start_pt + int (fst dims) + 1)
                                 (snd start_pt, snd start_pt + int (snd dims) + 1) 1;
          mask_img = rotate_fn theta mask_img
      in case crop_bbox mask_img of
           Inl e \<Rightarrow> Inl e
         | Inr bin_image \<Rightarrow> Inr (map (map (\<lambda>v. v \<noteq> 0)) bin_image))"

text \<open>
  The property of claim C2: the foreground reaches the first and the last row and the
  first and the last column of the mask.
\<close>

definition tight :: "bool list list \<Rightarrow> bool" where
  "tight m \<longleftrightarrow> m \<noteq> [] \<and> list_all (\<lambda>r. r \<noteq> []) m
     \<and> list_ex id (hd m) \<and> list_ex id (last m)
     \<and> list_ex (\<lambda>r. hd r) m \<and> list_ex (\<lambda>r. last r) m"


section \<open>Liquid fill: \<open>apply_liquid_container_rule\<close>\<close>

text \<open>
  The fields of \<open>Object2D\<close> read by the rule. \<open>lqd_level\<close> is a Python float; every
  finite float is a rational, and the field holds that rational. The arithmetic on it is
  the machine's: each operation rounds its exact result to the nearest double, and that
  rounding is the parameter \<open>fl\<close> of the rule below. The raster \<open>data\<close> is the int64 array
  \<open>self.label * self.data\<close> of line 202.
\<close>

record object2d =
  data :: image
  label :: int

record liquid_object = object2d +
  cntr_thickness :: int
  lqd_level :: rat
  lqd_label :: int

text \<open>\<open>np.where\<close> of a boolean array, and Python's \<open>int()\<close> of a float (truncation).\<close>

definition true_idx :: "bool list list \<Rightarrow> (nat \<times> nat) list" where
  "true_idx b =
     concat (map (\<lambda>i. map (\<lambda>j. (i, j)) (filter (\<lambda>j. b ! i ! j) [0..<length (b ! i)]))
                 [0..<length b])"

definition py_int :: "rat \<Rightarrow> int" where
  "py_int x = (if 0 \<le> x then \<lfloor>x\<rfloor> else \<lceil>x\<rceil>)"

text \<open>
  \<open>e_fill_img[:e_fill, :] = 0\<close>: the rows selected by the slice \<open>[:e_fill]\<close> are cleared.
\<close>

definition clear_rows :: "bool list list \<Rightarrow> int \<Rightarrow> bool list list" where
  "clear_rows img e_fill =
     map (\<lambda>(i, row). if i < slice_index (length img) e_fill then map (\<lambda>_. False) row else row)
         (zip [0..<length img] img)"

text \<open>
  \<open>a[idx] = v\<close> for a list of index pairs and a Python integer \<open>v\<close>. numpy first converts
  \<open>v\<close> to the element type of the raster and raises OverflowError when a 64-bit signed
  integer cannot hold it, then checks every index against the shape of \<open>a\<close> and raises
  IndexError; both happen before anything is written.
\<close>

definition int64 :: "int \<Rightarrow> bool" where
  "int64 v \<longleftrightarrow> - (2 ^ 63) \<le> v \<and> v < 2 ^ 63"

definition in_shape :: "image \<Rightarrow> nat \<times> nat \<Rightarrow> bool" where
  "in_shape a ij \<longleftrightarrow> fst ij < length a \<and> snd ij < length (a ! fst ij)"

definition assign_idx :: "image \<Rightarrow> (nat \<times> nat) list \<Rightarrow> int \<Rightarrow> py_error + image" where
  "assign_idx a idx v =
     (if \<not> int64 v then Inl OverflowError
      else if list_all (in_shape a) idx
      then Inr (map (\<lambda>(i, row). map (\<lambda>(j, x). if (i, j) \<in> set idx then v else x)
                                     (zip [0..<length row] row))
                    (zip [0..<length a] a))
      else Inl IndexError)"

text \<open>
  The body of the \<open>try\<close> block (lines 216-225), as a computation on \<open>self.data\<close>: the
  result is the exception raised, if any, together with \<open>self.data\<close> as it is at that
  moment. \<open>erode t b\<close> stands for the two library calls of lines 217-218,
  \<open>binary_erosion(b, selem=disk(t))\<close>, which may raise. \<open>fl\<close> is the rounding of double
  arithmetic, applied to the difference and to the product of line 220. The floor division
  by the label is numpy's (a zero label gives 0). Line 224 writes \<open>-1\<close> before line 225
  converts the liquid label, so a failure of line 225 leaves the cavity marked.
\<close>

definition liquid_rule_body ::
    "(int \<Rightarrow> image \<Rightarrow> py_error + bool list list) \<Rightarrow> (rat \<Rightarrow> rat) \<Rightarrow> liquid_object
       \<Rightarrow> py_error option \<times> image" where
  "liquid_rule_body erode fl self =
     (let bin_data = map (map (\<lambda>v. v div label self)) (data self) in
      case erode (cntr_thickness self) bin_data of
        Inl e \<Rightarrow> (Some e, data self)
      | Inr eroded_img \<Rightarrow>
          let e_row = map fst (true_idx eroded_img) in
          if e_row = [] then (Some ValueError, data self)
          else
            let e_fill = py_int (fl (fl (1 - lqd_level self)
                           * of_int (int (fold max e_row (hd e_row)) - int (fold min e_row (hd e_row)))));
                e_fill_img = clear_rows eroded_img e_fill
            in (case assign_idx (data self) (true_idx eroded_img) (- 1) of
                  Inl e \<Rightarrow> (Some e, data self)
                | Inr data1 \<Rightarrow>
                    (case assign_idx data1 (true_idx e_fill_img) (lqd_label self) of
                       Inl e \<Rightarrow> (Some e, data1)
                     | Inr data2 \<Rightarrow> (None, data2))))"

text \<open>
  \<open>apply_liquid_container_rule\<close> (lines 206-227): \<open>try: ... except: pass\<close> swallows the
  exception and leaves the object as the body left it.
\<close>

definition apply_liquid_container_rule ::
    "(int \<Rightarrow> image \<Rightarrow> py_error + bool list list) \<Rightarrow> (rat \<Rightarrow> rat) \<Rightarrow> liquid_object
       \<Rightarrow> liquid_object" where
  "apply_liquid_container_rule erode fl self =
     self\<lparr>data := snd (liquid_rule_body erode fl self)\<rparr>"

text \<open>
  A model of the library calls for concrete inputs: \<open>disk r\<close> is the set of offsets within
  Euclidean distance \<open>r\<close>, and scikit-image's \<open>binary_erosion\<close> keeps a cell when every
  offset from it lands on foreground, cells outside the array counting as foreground.
  For a negative radius \<open>disk\<close> returns an empty footprint, which the erosion refuses with
  RuntimeError.

  \<open>sk_erode\<close> reads the name \<open>disk\<close> as \<open>skimage.morphology.disk\<close>, the binding that the
  star imports of lines 26-27 leave with scikit-image before 0.17. From 0.17 on
  \<open>skimage.draw\<close> exports a function \<open>disk(center, radius)\<close> and the second star import
  rebinds the name; the call \<open>disk(self.cntr_thickness)\<close> of line 217 then lacks an
  argument and raises TypeError whatever the object: that binding is \<open>draw_erode\<close>.

  \<open>fl_exact\<close> is the rounding \<open>fl\<close> on values that are doubles already, as all the values
  are that the rule forms from the levels 0.0, 0.5 and 1.0 and a small integer.
\<close>

definition disk :: "nat \<Rightarrow> (int \<times> int) list" where
  "disk r = filter (\<lambda>(dr, dc). dr * dr + dc * dc \<le> int r * int r)
              (concat (map (\<lambda>dr. map (\<lambda>dc. (dr, dc)) [- int r..int r]) [- int r..int r]))"

definition binary_erosion :: "image \<Rightarrow> (int \<times> int) list \<Rightarrow> bool list list" where
  "binary_erosion img selem =
     map (\<lambda>(i, row).
            map (\<lambda>(j, _).
                   list_all (\<lambda>(dr, dc).
                       let y = int i + dr; x = int j + dc
                       in if 0 \<le> y \<and> y < int (length img) \<and> 0 \<le> x \<and> x < int (length row)
                          then img ! nat y ! nat x \<noteq> 0 else True) selem)
                (zip [0..<length row] row))
         (zip [0..<length img] img)"

definition sk_erode :: "int \<Rightarrow> image \<Rightarrow> py_error + bool list list" where
  "sk_erode t img =
     (if t < 0 then Inl RuntimeError else Inr (binary_erosion img (disk (nat t))))"

definition draw_erode :: "int \<Rightarrow> image \<Rightarrow> py_error + bool list list" where
  "draw_erode t img = Inl TypeError"

definition fl_exact :: "rat \<Rightarrow> rat" where
  "fl_exact x = x"

text \<open>The cavity cells of a container, and the lines 1277-1278 of \<open>create_baggage_image\<close>.\<close>

definition place_liquid_container ::
    "(int \<Rightarrow> image \<Rightarrow> py_error + bool list list) \<Rightarrow> (rat \<Rightarrow> rat) \<Rightarrow> image \<Rightarrow> int \<times> int
       \<Rightarrow> liquid_object \<Rightarrow> py_error + image" where
  "place_liquid_container erode fl canvas pose bag_obj =
     place_object_in_bag canvas pose (data (apply_liquid_container_rule erode fl bag_obj))"


section \<open>Overlap detection and the overlap rule\<close>

text \<open>
  The fields of \<open>BaggageImage2D\<close> that the placement rules read: \<open>size\<close>, \<open>bb_h\<close>, the
  boundary mask of the current slice, and \<open>extents\<close> (present exactly when a bag mask is).
  The fields of \<open>Object2D\<close> that they read and write extend the raster and label above;
  \<open>pose\<close> holds the first two entries of the pose array. \<open>size_px\<close> and \<open>dim_px\<close> are
  the source's \<open>self.size\<close> and \<open>bag_obj.dim\<close>.
\<close>

record bag_env =
  size_px :: int
  bb_h :: int
  boundary :: image
  extents :: "(int \<times> int) option"

record bag_object = object2d +
  shape :: char
  dim_px :: "int \<times> int"
  pose :: "int \<times> int"
  curve_pts :: "(int \<times> int) \<times> (int \<times> int)"

text \<open>
  \<open>get_overlap\<close> (lines 1382-1404): the canvas with the boundary cells cleared, cut to the
  window of the raster at the pose, multiplied cell by cell with the raster cut to the
  window's shape.
\<close>

definition clear_boundary :: "image \<Rightarrow> image \<Rightarrow> image" where
  "clear_boundary canvas bnd =
     map (\<lambda>(i, row). map (\<lambda>(j, x). if i < length bnd \<and> j < length (bnd ! i) \<and> bnd ! i ! j \<noteq> 0
                                      then 0 else x)
                          (zip [0..<length row] row))
         (zip [0..<length canvas] canvas)"

definition get_overlap :: "bag_env \<Rightarrow> image \<Rightarrow> int \<times> int \<Rightarrow> image \<Rightarrow> bool \<times> image" where
  "get_overlap env canvas p raster =
     (let bag_data = clear_boundary canvas (boundary env);
          obj_loc = map (\<lambda>row. py_slice row (snd p) (snd p + int (ncols raster)))
                        (py_slice bag_data (fst p) (fst p + int (nrows raster)));
          obj_int = map (\<lambda>(drow, lrow). map (\<lambda>(d, l). d * (if l \<noteq> 0 then 1 else 0)) (zip drow lrow))
                        (zip (map (take (ncols obj_loc)) (take (nrows obj_loc) raster)) obj_loc);
          out_flag = list_ex (list_ex (\<lambda>v. v \<noteq> 0)) obj_int
      in (out_flag, obj_int))"

text \<open>
  The pose array is shared: \<open>pose_list = [bag_obj.pose]\<close> and
  \<open>pose_list.append(bag_obj.pose)\<close> store references to the one array that
  \<open>bag_obj.pose[0] -= ...\<close> updates in place. The loop state therefore keeps a store from
  references to array contents, and \<open>pose_list\<close> is a list of references. \<open>passes\<close>,
  \<open>escapes\<close> and \<open>pose_vals\<close> are not variables of the source and nothing reads them:
  they count the entries into the loop body and the executions of line 1541, and record
  the contents of the pose array at the moment each entry of \<open>pose_list\<close> was stored.
\<close>

type_synonym ref = nat

record ol_state =
  store :: "ref \<Rightarrow> int \<times> int"
  pose_list :: "ref list"
  ol_ctr :: nat
  row_shift :: bool
  col_shift :: bool
  LATERAL_OSC_FLAG :: bool
  OVERLAP_FLAG :: bool
  obj_int :: image
  passes :: nat
  escapes :: nat
  pose_vals :: "(int \<times> int) list"

text \<open>The per-axis shift of lines 1508-1526.\<close>

definition axis_shift :: "int \<times> int \<Rightarrow> int \<Rightarrow> int" where
  "axis_shift bbox max_o =
     (if fst bbox = 0 \<and> snd bbox = max_o then 0
      else if snd bbox = max_o then - (snd bbox - fst bbox + 1)
      else if fst bbox = 0 then snd bbox - fst bbox + 1
      else 0)"

text \<open>
  The bounding box of the chosen component (lines 1497-1500): \<open>.min()\<close> of an empty index
  array raises ValueError.
\<close>

definition bbox :: "bool list list \<Rightarrow> py_error + ((int \<times> int) \<times> (int \<times> int))" where
  "bbox obj_int_bin =
     (let vs = true_idx obj_int_bin in
      if vs = [] then Inl ValueError
      else
        let vrows = map fst vs; vcols = map snd vs
        in Inr ((int (fold min vrows (hd vrows)), int (fold max vrows (hd vrows))),
                (int (fold min vcols (hd vcols)), int (fold max vcols (hd vcols)))))"

text \<open>The in-place updates of the pose array by lines 1508-1526.\<close>

definition shifted :: "ol_state \<Rightarrow> ref \<Rightarrow> (int \<times> int) \<times> (int \<times> int) \<Rightarrow> int \<times> int \<Rightarrow> ref \<Rightarrow> int \<times> int" where
  "shifted s p bb max_o_dim =
     (let st1 = (if row_shift s
                 then (store s)(p := (fst (store s p) + axis_shift (fst bb) (fst max_o_dim),
                                      snd (store s p)))
                 else store s)
      in if col_shift s
         then st1(p := (fst (st1 p), snd (st1 p) + axis_shift (snd bb) (snd max_o_dim)))
         else st1)"

text \<open>
  The first part of the loop body (lines 1481-1526) for the pose array at reference \<open>p\<close>:
  the component is chosen and the pose is shifted. \<open>label_fn\<close> stands for
  \<open>skimage.measure.label\<close>. The result is the state after the shifts and \<open>bbox_dim[0]\<close>.
\<close>

definition pass_shift ::
    "(bool list list \<Rightarrow> nat list list) \<Rightarrow> ol_state \<Rightarrow> ref \<Rightarrow> py_error + (ol_state \<times> int)" where
  "pass_shift label_fn s p =
     (case select_component (label_fn (map (map (\<lambda>v. v \<noteq> 0)) (obj_int s))) of
        Inl e \<Rightarrow> Inl e
      | Inr obj_int_bin \<Rightarrow>
          (case bbox obj_int_bin of
             Inl e \<Rightarrow> Inl e
           | Inr bb \<Rightarrow>
               (let bbox_dim = (snd (fst bb) - fst (fst bb), snd (snd bb) - fst (snd bb));
                    max_o_dim = (int (nrows obj_int_bin) - 1, int (ncols obj_int_bin) - 1)
                in Inr (s\<lparr>store := shifted s p bb max_o_dim, passes := passes s + 1\<rparr>,
                        fst bbox_dim))))"

text \<open>\<open>GROUND_FLAG\<close> of lines 1528-1530, and the append of line 1532.\<close>

definition ground_break :: "bag_env \<Rightarrow> bag_object \<Rightarrow> ol_state \<Rightarrow> ref \<Rightarrow> bool" where
  "ground_break env bag_obj s p \<longleftrightarrow>
     fst (store s p) + fst (dim_px bag_obj) \<ge> size_px env div 2 + bb_h env"

definition append_pose :: "ol_state \<Rightarrow> ref \<Rightarrow> ol_state" where
  "append_pose s p = s\<lparr>pose_list := pose_list s @ [p], pose_vals := pose_vals s @ [store s p]\<rparr>"

text \<open>
  The oscillation test (lines 1534-1544) with \<open>bbox_dim[0]\<close> as \<open>d0\<close>. \<open>pose_list[-2]\<close> is read
  only when \<open>ol_ctr \<ge> 2\<close> and raises IndexError on a list shorter than two; it is a
  reference, so \<open>prev_pose\<close> is what the store holds for it now. \<open>escape\<close> is the branch
  of lines 1541-1544.
\<close>

definition osc_cond :: "ol_state \<Rightarrow> ref \<Rightarrow> bool" where
  "osc_cond s p =
     (let prev_pose = store s (pose_list s ! (length (pose_list s) - 2))
      in fst (store s p) = fst prev_pose \<and> snd (store s p) = snd prev_pose)"

definition escape :: "ol_state \<Rightarrow> ref \<Rightarrow> int \<Rightarrow> ol_state" where
  "escape s p d0 =
     s\<lparr>store := (store s)(p := (fst (store s p) - (d0 + 1), snd (store s p))),
       col_shift := False, row_shift := False,
       LATERAL_OSC_FLAG := True, escapes := escapes s + 1\<rparr>"

definition osc_check :: "ol_state \<Rightarrow> ref \<Rightarrow> int \<Rightarrow> py_error + ol_state" where
  "osc_check s p d0 =
     (if ol_ctr s \<ge> 2
      then if length (pose_list s) < 2 then Inl IndexError
           else if osc_cond s p then Inr (escape s p d0) else Inr s
      else Inr s)"

text \<open>Lines 1546-1547: count the pass and test the overlap at the new pose.\<close>

definition recheck :: "bag_env \<Rightarrow> image \<Rightarrow> bag_object \<Rightarrow> ref \<Rightarrow> ol_state \<Rightarrow> ol_state" where
  "recheck env canvas bag_obj p s =
     (let ov = get_overlap env canvas (store s p) (data bag_obj)
      in s\<lparr>ol_ctr := ol_ctr s + 1, OVERLAP_FLAG := fst ov, obj_int := snd ov\<rparr>)"

text \<open>
  One execution of the loop body (lines 1481-1549). The result is the new state and
  whether a \<open>break\<close> was taken.
\<close>

definition overlap_pass ::
    "(bool list list \<Rightarrow> nat list list) \<Rightarrow> bag_env \<Rightarrow> image \<Rightarrow> bag_object \<Rightarrow> ref \<Rightarrow> ol_state
       \<Rightarrow> py_error + (ol_state \<times> bool)" where
  "overlap_pass label_fn env canvas bag_obj p s =
     (case pass_shift label_fn s p of
        Inl e \<Rightarrow> Inl e
      | Inr (s1, d0) \<Rightarrow>
          if ground_break env bag_obj s1 p then Inr (s1, True)
          else
            (case osc_check (append_pose s1 p) p d0 of
               Inl e \<Rightarrow> Inl e
             | Inr s2 \<Rightarrow>
                 Inr (recheck env canvas bag_obj p s2,
                      ol_ctr (recheck env canvas bag_obj p s2) = 10)))"

text \<open>The loop \<open>while OVERLAP_FLAG\<close> (line 1479). \<open>None\<close> stands for a loop that never ends.\<close>

partial_function (option) overlap_while ::
    "(bool list list \<Rightarrow> nat list list) \<Rightarrow> bag_env \<Rightarrow> image \<Rightarrow> bag_object \<Rightarrow> ref \<Rightarrow> ol_state
       \<Rightarrow> (py_error + ol_state) option" where
  "overlap_while label_fn env canvas bag_obj p s =
     (if OVERLAP_FLAG s
      then (case overlap_pass label_fn env canvas bag_obj p s of
              Inl e \<Rightarrow> Some (Inl e)
            | Inr r \<Rightarrow> if snd r then Some (Inr (fst r))
                       else overlap_while label_fn env canvas bag_obj p (fst r))
      else Some (Inr s))"

declare overlap_while.simps [code]

text \<open>
  \<open>run_shape_grammar_overlap\<close> up to line 1549, for the flags \<open>row_shift\<close> and
  \<open>col_shift\<close> given by the caller and the current value of \<open>self.LATERAL_OSC_FLAG\<close>. The
  pose array of the object is allocated at reference 0. The final state holds the pose.
\<close>

definition overlap_init :: "bag_env \<Rightarrow> image \<Rightarrow> bag_object \<Rightarrow> bool \<Rightarrow> bool \<Rightarrow> bool \<Rightarrow> ol_state" where
  "overlap_init env canvas bag_obj rs cs lat =
     (let ov = get_overlap env canvas (pose bag_obj) (data bag_obj)
      in \<lparr>store = (\<lambda>_. pose bag_obj), pose_list = [0], ol_ctr = 0, row_shift = rs, col_shift = cs,
          LATERAL_OSC_FLAG = lat, OVERLAP_FLAG = fst ov, obj_int = snd ov, passes = 0, escapes = 0,
          pose_vals = [pose bag_obj]\<rparr>)"

definition run_shape_grammar_overlap ::
    "(bool list list \<Rightarrow> nat list list) \<Rightarrow> bag_env \<Rightarrow> image \<Rightarrow> bag_object \<Rightarrow> bool \<Rightarrow> bool \<Rightarrow> bool
       \<Rightarrow> (py_error + ol_state) option" where
  "run_shape_grammar_overlap label_fn env canvas bag_obj rs cs lat =
     overlap_while label_fn env canvas bag_obj 0 (overlap_init env canvas bag_obj rs cs lat)"

text \<open>
  A labelling for concrete inputs whose intersection is connected: every foreground cell
  gets the label 1, as \<open>skimage.measure.label\<close> gives for a single component.
\<close>

definition label_one :: "bool list list \<Rightarrow> nat list list" where
  "label_one b = map (map (\<lambda>v. if v then 1 else 0)) b"



section \<open>Boundary clamping and the gravity rule\<close>

text \<open>
  \<open>_adjust_for_boundaries\<close> (lines 1407-1448). The raster is trimmed with the slices
  \<open>[-dim:]\<close> and \<open>[:dim]\<close>, taken with the dimension already reduced.
\<close>

definition lower_bound :: "bag_env \<Rightarrow> int \<times> int" where
  "lower_bound env =
     (case extents env of
        None \<Rightarrow> (size_px env div 2 - bb_h env, size_px env div 2 - bb_h env)
      | Some ex \<Rightarrow> (size_px env div 2 - fst ex div 2, size_px env div 2 - snd ex div 2))"

definition upper_bound :: "bag_env \<Rightarrow> int \<times> int" where
  "upper_bound env =
     (case extents env of
        None \<Rightarrow> (size_px env div 2 + bb_h env, size_px env div 2 + bb_h env)
      | Some ex \<Rightarrow> (size_px env div 2 + fst ex div 2, size_px env div 2 + snd ex div 2))"

definition adjust_x_low :: "bag_env \<Rightarrow> bag_object \<Rightarrow> bag_object" where
  "adjust_x_low env bag_obj =
     (if fst (pose bag_obj) \<le> fst (lower_bound env)
      then let pose_diff_0 = fst (lower_bound env) - fst (pose bag_obj);
               d0 = fst (dim_px bag_obj) - pose_diff_0
           in bag_obj\<lparr>pose := (fst (lower_bound env), snd (pose bag_obj)),
                      dim_px := (d0, snd (dim_px bag_obj)),
                      data := py_slice (data bag_obj) (- d0) (int (length (data bag_obj)))\<rparr>
      else bag_obj)"

definition adjust_x_high :: "bag_env \<Rightarrow> bag_object \<Rightarrow> bag_object" where
  "adjust_x_high env bag_obj =
     (if fst (pose bag_obj) + fst (dim_px bag_obj) \<ge> fst (upper_bound env)
      then let pose_diff_0 = fst (pose bag_obj) + fst (dim_px bag_obj) - fst (upper_bound env);
               d0 = fst (dim_px bag_obj) - pose_diff_0
           in bag_obj\<lparr>dim_px := (d0, snd (dim_px bag_obj)),
                      data := py_slice (data bag_obj) 0 d0\<rparr>
      else bag_obj)"

definition adjust_y_low :: "bag_env \<Rightarrow> bag_object \<Rightarrow> bag_object" where
  "adjust_y_low env bag_obj =
     (if snd (pose bag_obj) \<le> snd (lower_bound env)
      then let pose_diff_0 = snd (lower_bound env) - snd (pose bag_obj);
               d1 = snd (dim_px bag_obj) - pose_diff_0
           in bag_obj\<lparr>pose := (fst (pose bag_obj), snd (lower_bound env)),
                      dim_px := (fst (dim_px bag_obj), d1),
                      data := map (\<lambda>row. py_slice row (- d1) (int (length row))) (data bag_obj)\<rparr>
      else bag_obj)"

definition adjust_y_high :: "bag_env \<Rightarrow> bag_object \<Rightarrow> bag_object" where
  "adjust_y_high env bag_obj =
     (if snd (pose bag_obj) + snd (dim_px bag_obj) \<ge> snd (upper_bound env)
      then let pose_diff_0 = snd (pose bag_obj) + snd (dim_px bag_obj) - snd (upper_bound env);
               d1 = snd (dim_px bag_obj) - pose_diff_0
           in bag_obj\<lparr>dim_px := (fst (dim_px bag_obj), d1),
                      data := map (\<lambda>row. py_slice row 0 d1) (data bag_obj)\<rparr>
      else bag_obj)"

definition adjust_for_boundaries :: "bag_env \<Rightarrow> bag_object \<Rightarrow> bag_object" where
  "adjust_for_boundaries env bag_obj =
     adjust_y_high env (adjust_y_low env (adjust_x_high env (adjust_x_low env bag_obj)))"

text \<open>
  The state of \<open>run_shape_grammar_overlap_and_gravity\<close> (lines 1726-1832): the canvas, the
  object, the two counters \<open>drop_ctr\<close> and \<open>ol_ctr\<close>, the flags \<open>OVERLAP_FLAG\<close>, \<open>osc_cond\<close>
  and \<open>self.LATERAL_OSC_FLAG\<close>, and the local \<open>COLL_FLAG\<close> of the sheet branch, which is
  unbound until its first assignment.
\<close>

record grav_state =
  g_ws_bag :: image
  g_obj :: bag_object
  g_drop_ctr :: nat
  g_ol_ctr :: nat
  g_overlap :: bool
  g_osc_cond :: bool
  g_lat_osc :: bool
  g_coll :: "bool option"

definition ground_y :: "bag_env \<Rightarrow> int" where
  "ground_y env =
     (case extents env of
        None \<Rightarrow> size_px env div 2 + bb_h env
      | Some ex \<Rightarrow> size_px env div 2 + fst ex div 2)"

text \<open>
  The inner loop of lines 1815-1826: the overlap rule is called with both shifts enabled
  and without committing the object; \<open>ol_ctr\<close> is not reset between the outer steps.
\<close>

partial_function (option) gravity_inner ::
    "(bool list list \<Rightarrow> nat list list) \<Rightarrow> bag_env \<Rightarrow> int \<times> int \<Rightarrow> grav_state
       \<Rightarrow> (py_error + grav_state) option" where
  "gravity_inner label_fn env prev_pose st =
     (if g_overlap st
      then Option.bind
             (run_shape_grammar_overlap label_fn env (g_ws_bag st) (g_obj st) True True (g_lat_osc st))
             (\<lambda>r. case r of
                     Inl e \<Rightarrow> Some (Inl e)
                   | Inr s \<Rightarrow>
                       (let bag_obj = (g_obj st)\<lparr>pose := store s 0\<rparr>;
                            ov = get_overlap env (g_ws_bag st) (pose bag_obj) (data bag_obj);
                            st1 = st\<lparr>g_obj := bag_obj, g_ol_ctr := g_ol_ctr st + 1,
                                     g_lat_osc := LATERAL_OSC_FLAG s, g_overlap := fst ov,
                                     g_osc_cond := (fst (pose bag_obj) = fst prev_pose
                                                     \<and> snd (pose bag_obj) = snd prev_pose)\<rparr>
                        in if g_ol_ctr st1 > 10
                           then Some (Inr (st1\<lparr>g_ol_ctr := 0, g_overlap := False\<rparr>))
                           else gravity_inner label_fn env prev_pose st1))
      else Some (Inr st))"

declare gravity_inner.simps [code]

text \<open>
  The floor branch (lines 1800-1811): clamp to the floor, settle a residual overlap with a
  column-only call of the overlap rule, commit, and leave the loop.
\<close>

definition ground_branch ::
    "(bool list list \<Rightarrow> nat list list) \<Rightarrow> bag_env \<Rightarrow> grav_state \<Rightarrow> (py_error + grav_state) option" where
  "ground_branch label_fn env st =
     (let bag_obj = g_obj st;
          g_diff = fst (pose bag_obj) + fst (dim_px bag_obj) - ground_y env;
          bag_obj = bag_obj\<lparr>pose := (fst (pose bag_obj) - g_diff, snd (pose bag_obj))\<rparr>;
          ov = get_overlap env (g_ws_bag st) (pose bag_obj) (data bag_obj);
          st1 = st\<lparr>g_obj := bag_obj, g_overlap := fst ov\<rparr>
      in if fst ov
         then Option.bind
                (run_shape_grammar_overlap label_fn env (g_ws_bag st) bag_obj False True (g_lat_osc st))
                (\<lambda>r. case r of
                        Inl e \<Rightarrow> Some (Inl e)
                      | Inr s \<Rightarrow>
                          (let bag_obj = bag_obj\<lparr>pose := store s 0\<rparr> in
                           case place_object_in_bag (g_ws_bag st) (pose bag_obj) (data bag_obj) of
                             Inl e \<Rightarrow> Some (Inl e)
                           | Inr canvas \<Rightarrow>
                               Some (Inr (st1\<lparr>g_obj := bag_obj, g_ws_bag := canvas,
                                               g_lat_osc := LATERAL_OSC_FLAG s\<rparr>))))
         else Some (Inr st1))"

text \<open>
  The loop \<open>while drop_ctr < 50\<close>. \<open>sheet_branch\<close> stands for the lines 1768-1793 taken by
  sheet objects (\<open>generate_sheet_curve\<close>, \<open>inflate_sheet\<close> and the commit): it maps the canvas,
  the object and \<open>COLL_FLAG\<close> to their new values and tells whether it leaves the loop.
\<close>

partial_function (option) gravity_while ::
    "(image \<Rightarrow> bag_object \<Rightarrow> bool option \<Rightarrow> py_error + (image \<times> bag_object \<times> bool option \<times> bool))
       \<Rightarrow> (bool list list \<Rightarrow> nat list list) \<Rightarrow> bag_env \<Rightarrow> int \<Rightarrow> grav_state
       \<Rightarrow> (py_error + grav_state) option" where
  "gravity_while sheet_branch label_fn env z_inc st =
     (if g_drop_ctr st < 50
      then
        (let prev_pose = pose (g_obj st);
             st1 = st\<lparr>g_osc_cond := False, g_lat_osc := False, g_drop_ctr := g_drop_ctr st + 1,
                      g_obj := (g_obj st)\<lparr>pose := (fst prev_pose + z_inc, snd prev_pose)\<rparr>\<rparr>
         in if shape (g_obj st1) = CHR ''S''
            then (case sheet_branch (g_ws_bag st1) (g_obj st1) (g_coll st1) of
                    Inl e \<Rightarrow> Some (Inl e)
                  | Inr r \<Rightarrow>
                      (let st2 = st1\<lparr>g_ws_bag := fst r, g_obj := fst (snd r),
                                      g_coll := fst (snd (snd r))\<rparr>
                       in if snd (snd (snd r)) then Some (Inr st2)
                          else gravity_while sheet_branch label_fn env z_inc st2))
            else
              (let GROUND_FLAG = (fst (pose (g_obj st1)) + fst (dim_px (g_obj st1)) \<ge> ground_y env);
                   ov = get_overlap env (g_ws_bag st1) (pose (g_obj st1)) (data (g_obj st1));
                   st2 = st1\<lparr>g_overlap := fst ov\<rparr>
               in if GROUND_FLAG then ground_branch label_fn env st2
                  else Option.bind
                         (if g_overlap st2
                          then gravity_inner label_fn env prev_pose (st2\<lparr>g_lat_osc := False\<rparr>)
                          else Some (Inr st2))
                         (\<lambda>r. case r of
                                 Inl e \<Rightarrow> Some (Inl e)
                               | Inr st3 \<Rightarrow>
                                   if g_osc_cond st3 \<or> g_lat_osc st3 then Some (Inr st3)
                                   else gravity_while sheet_branch label_fn env z_inc st3)))
      else Some (Inr st))"

declare gravity_while.simps [code]

text \<open>
  \<open>run_shape_grammar_overlap_and_gravity\<close>: the loop from \<open>drop_ctr = 0\<close> and
  \<open>ol_ctr = 0\<close>, then the boundary clamp and the commit of lines 1831-1832.
\<close>

definition gravity_init :: "image \<Rightarrow> bag_object \<Rightarrow> bool \<Rightarrow> grav_state" where
  "gravity_init canvas bag_obj lat =
     \<lparr>g_ws_bag = canvas, g_obj = bag_obj, g_drop_ctr = 0, g_ol_ctr = 0, g_overlap = False,
      g_osc_cond = False, g_lat_osc = lat, g_coll = None\<rparr>"

definition run_shape_grammar_overlap_and_gravity ::
    "(image \<Rightarrow> bag_object \<Rightarrow> bool option \<Rightarrow> py_error + (image \<times> bag_object \<times> bool option \<times> bool))
       \<Rightarrow> (bool list list \<Rightarrow> nat list list) \<Rightarrow> bag_env \<Rightarrow> image \<Rightarrow> bag_object \<Rightarrow> int \<Rightarrow> bool
       \<Rightarrow> (py_error + grav_state) option" where
  "run_shape_grammar_overlap_and_gravity sheet_branch label_fn env canvas bag_obj z_inc lat =
     Option.bind (gravity_while sheet_branch label_fn env z_inc (gravity_init canvas bag_obj lat))
       (\<lambda>r. case r of
               Inl e \<Rightarrow> Some (Inl e)
             | Inr st \<Rightarrow>
                 (let bag_obj = adjust_for_boundaries env (g_obj st) in
                  case place_object_in_bag (g_ws_bag st) (pose bag_obj) (data bag_obj) of
                    Inl e \<Rightarrow> Some (Inl e)
                  | Inr canvas \<Rightarrow> Some (Inr (st\<lparr>g_obj := bag_obj, g_ws_bag := canvas\<rparr>))))"

text \<open>
  A container is empty when every nonzero canvas cell is a boundary cell, which
  \<open>get_overlap\<close> disregards.
\<close>

definition empty_container :: "bag_env \<Rightarrow> image \<Rightarrow> bool" where
  "empty_container env canvas \<longleftrightarrow>
     list_all (list_all (\<lambda>v. v = 0)) (clear_boundary canvas (boundary env))"


section \<open>Sheet fitting: \<open>run_midpoint_recursion\<close>\<close>

text \<open>
  A point is a pair of array indices (row, column); the sheet's curve points are clipped
  to non-negative values before the recursion is entered (line 1620) and every relocated
  midpoint is an index returned by \<open>np.where\<close>. A sub-segment is its pair of end points,
  and the value returned by the recursion, a stack of 2x2 arrays, is the list of its leaf
  sub-segments. The canvas is read as it is, boundary cells included.
\<close>

type_synonym point = "nat \<times> nat"

definition in_canvas :: "image \<Rightarrow> point \<Rightarrow> bool" where
  "in_canvas canvas pt \<longleftrightarrow> fst pt < nrows canvas \<and> snd pt < ncols canvas"

text \<open>
  Lines 1566-1571. \<open>line_fn\<close> stands for \<open>skimage.draw.line\<close>; indexing the canvas with its
  points raises IndexError when one of them lies outside.
\<close>

definition line_overlap ::
    "(point \<Rightarrow> point \<Rightarrow> point list) \<Rightarrow> image \<Rightarrow> point \<times> point \<Rightarrow> py_error + bool" where
  "line_overlap line_fn canvas simplex_pts =
     (let line_pts = line_fn (fst simplex_pts) (snd simplex_pts) in
      if list_all (in_canvas canvas) line_pts
      then Inr (list_ex (\<lambda>pt. canvas ! fst pt ! snd pt \<noteq> 0) line_pts)
      else Inl IndexError)"

text \<open>
  Lines 1575-1583. The midpoint is the truncated average; it is moved to the free cell of
  its column that is nearest to it, the first such cell when two are equally near
  (\<open>argmin\<close> returns the first minimum, and it raises ValueError on an empty sequence).
\<close>

definition midpoint :: "point \<times> point \<Rightarrow> point" where
  "midpoint simplex_pts =
     ((fst (fst simplex_pts) + fst (snd simplex_pts)) div 2,
      (snd (fst simplex_pts) + snd (snd simplex_pts)) div 2)"

definition free_rows :: "image \<Rightarrow> nat \<Rightarrow> nat list" where
  "free_rows canvas c = filter (\<lambda>i. canvas ! i ! c = 0) [0..<nrows canvas]"

definition argmin :: "nat list \<Rightarrow> nat" where
  "argmin xs = length (takeWhile (\<lambda>v. v \<noteq> fold min xs (hd xs)) xs)"

definition row_dist :: "nat \<Rightarrow> nat \<Rightarrow> nat" where
  "row_dist i r = nat \<bar>int i - int r\<bar>"

definition relocate :: "image \<Rightarrow> point \<Rightarrow> py_error + point" where
  "relocate canvas mid_pt =
     (if snd mid_pt < ncols canvas
      then let row_ind = free_rows canvas (snd mid_pt)
           in if row_ind = [] then Inl ValueError
              else Inr (row_ind ! argmin (map (\<lambda>i. row_dist i (fst mid_pt)) row_ind), snd mid_pt)
      else Inl IndexError)"

text \<open>
  \<open>run_midpoint_recursion\<close> (lines 1555-1603). \<open>None\<close> stands for a recursion that never
  returns; an exception raised in a branch ends the whole call.
\<close>

partial_function (option) run_midpoint_recursion ::
    "(point \<Rightarrow> point \<Rightarrow> point list) \<Rightarrow> image \<Rightarrow> point \<times> point
       \<Rightarrow> (py_error + (point \<times> point) list) option" where
  "run_midpoint_recursion line_fn canvas simplex_pts =
     (case line_overlap line_fn canvas simplex_pts of
        Inl e \<Rightarrow> Some (Inl e)
      | Inr ov \<Rightarrow>
          if ov
          then (case relocate canvas (midpoint simplex_pts) of
                  Inl e \<Rightarrow> Some (Inl e)
                | Inr mid_pt \<Rightarrow>
                    if mid_pt = fst simplex_pts \<or> mid_pt = snd simplex_pts
                    then Some (Inr [simplex_pts])
                    else Option.bind
                           (run_midpoint_recursion line_fn canvas (fst simplex_pts, mid_pt))
                           (\<lambda>r1. case r1 of
                                    Inl e \<Rightarrow> Some (Inl e)
                                  | Inr pt_list_1 \<Rightarrow>
                                      Option.bind
                                        (run_midpoint_recursion line_fn canvas (snd simplex_pts, mid_pt))
                                        (\<lambda>r2. case r2 of
                                                 Inl e \<Rightarrow> Some (Inl e)
                                               | Inr pt_list_2 \<Rightarrow> Some (Inr (pt_list_1 @ pt_list_2)))))
          else Some (Inr [simplex_pts]))"

declare run_midpoint_recursion.simps [code]

text \<open>
  A model of the library rasterizer for concrete inputs: the Bresenham line of
  \<open>skimage.draw.line\<close>, which steps along the longer axis and ends in the second point.
\<close>

fun sk_line_steps :: "nat \<Rightarrow> bool \<Rightarrow> int \<Rightarrow> int \<Rightarrow> int \<Rightarrow> int \<Rightarrow> int \<Rightarrow> int \<Rightarrow> int \<Rightarrow> (int \<times> int) list" where
  "sk_line_steps 0 steep r c d dr dc sr sc = []"
| "sk_line_steps (Suc n) steep r c d dr dc sr sc =
     (if steep then (c, r) else (r, c))
     # sk_line_steps n steep (if d \<ge> 0 then r + sr else r) (c + sc)
         ((if d \<ge> 0 then d - 2 * dc else d) + 2 * dr) dr dc sr sc"

definition sk_line :: "point \<Rightarrow> point \<Rightarrow> point list" where
  "sk_line p q =
     (let r0 = int (fst p); c0 = int (snd p); r1 = int (fst q); c1 = int (snd q);
          dr = \<bar>r1 - r0\<bar>; dc = \<bar>c1 - c0\<bar>;
          sc = (if c1 - c0 > 0 then 1 else - 1); sr = (if r1 - r0 > 0 then 1 else - 1);
          pts = (if dr > dc
                 then sk_line_steps (nat dr) True c0 r0 (2 * dc - dr) dc dr sc sr
                 else sk_line_steps (nat dc) False r0 c0 (2 * dr - dc) dr dc sr sc)
      in map (\<lambda>(r, c). (nat r, nat c)) (pts @ [(r1, c1)]))"

text \<open>
  Notions for the termination argument. A row is free in a column when its cell is zero;
  \<open>nearer g b t\<close> orders the candidates of \<open>relocate\<close> for the target row \<open>t\<close>. A call
  \<open>stops\<close> when it cannot recurse even if its line overlaps; it is \<open>settled\<close> when its
  second point is a free cell of the column its midpoint falls in. The recursion descends
  in the lexicographic order of the column span, the settled flag and the row distance.
\<close>

definition free :: "image \<Rightarrow> nat \<Rightarrow> nat \<Rightarrow> bool" where
  "free canvas c b \<longleftrightarrow> b < nrows canvas \<and> canvas ! b ! c = 0"

definition nearer :: "nat \<Rightarrow> nat \<Rightarrow> nat \<Rightarrow> bool" where
  "nearer g b t \<longleftrightarrow> row_dist g t < row_dist b t \<or> (row_dist g t = row_dist b t \<and> g \<le> b)"

definition stops :: "image \<Rightarrow> point \<times> point \<Rightarrow> bool" where
  "stops canvas pts \<longleftrightarrow>
     (case relocate canvas (midpoint pts) of Inl e \<Rightarrow> True | Inr m \<Rightarrow> m = fst pts \<or> m = snd pts)"

definition col_span :: "point \<times> point \<Rightarrow> nat" where
  "col_span pts = row_dist (snd (fst pts)) (snd (snd pts))"

definition settled :: "image \<Rightarrow> point \<times> point \<Rightarrow> bool" where
  "settled canvas pts \<longleftrightarrow>
     snd (snd pts) = snd (midpoint pts) \<and> free canvas (snd (snd pts)) (fst (snd pts))"

definition row_meas :: "image \<Rightarrow> point \<times> point \<Rightarrow> nat" where
  "row_meas canvas pts =
     (if stops canvas pts then 0 else 1 + row_dist (fst (fst pts)) (fst (snd pts)))"

definition descent :: "image \<Rightarrow> ((point \<times> point) \<times> (point \<times> point)) set" where
  "descent canvas =
     measures [col_span, \<lambda>pts. if settled canvas pts then 0 else 1, row_meas canvas]"


section \<open>Properties of \<open>place_object_in_bag\<close>\<close>

lemma slice_index_le: "slice_index n i \<le> n"
  by (cases "i < 0") (simp_all add: slice_index_def)

lemma slice_window_le: "slice_lo n a b + slice_len n a b \<le> n"
  using slice_index_le [of n a] slice_index_le [of n b]
  by (simp add: slice_lo_def slice_len_def)

lemma nonzero_idx_iff:
  "(i, j) \<in> set (nonzero_idx b) \<longleftrightarrow> i < length b \<and> j < length (b ! i) \<and> b ! i ! j \<noteq> 0"
  by (auto simp: nonzero_idx_def)

lemma rect_nth: "rect m \<Longrightarrow> r < length m \<Longrightarrow> length (m ! r) = ncols m"
  by (simp add: rect_def list_all_length)

lemma view_assign_cells:
  assumes "\<forall>ij \<in> set nz. fst ij < fst shp \<and> snd ij < snd shp"
  shows "\<exists>canvas'. view_assign org shp b nz canvas = Inr canvas'
           \<and> length canvas' = length canvas
           \<and> (\<forall>r < length canvas. length (canvas' ! r) = length (canvas ! r))
           \<and> (\<forall>r c. r < length canvas \<longrightarrow> c < length (canvas ! r) \<longrightarrow>
                 canvas' ! r ! c =
                   (if fst org \<le> r \<and> snd org \<le> c \<and> (r - fst org, c - snd org) \<in> set nz
                    then b ! (r - fst org) ! (c - snd org) else canvas ! r ! c))"
  using assms
proof (induction nz arbitrary: canvas)
  case Nil
  then show ?case by simp
next
  case (Cons ij nz)
  obtain i j where ij: "ij = (i, j)" by (cases ij)
  let ?c1 = "canvas[fst org + i := (canvas ! (fst org + i))[snd org + j := b ! i ! j]]"
  have inb: "i < fst shp" "j < snd shp" using Cons.prems ij by auto
  have step: "view_assign org shp b (ij # nz) canvas = view_assign org shp b nz ?c1"
    using inb ij by (simp add: view_set_def)
  have rest: "\<forall>ij \<in> set nz. fst ij < fst shp \<and> snd ij < snd shp" using Cons.prems by simp
  from Cons.IH [OF rest, of ?c1] obtain canvas' where
    c': "view_assign org shp b nz ?c1 = Inr canvas'"
        "length canvas' = length ?c1"
        "\<forall>r < length ?c1. length (canvas' ! r) = length (?c1 ! r)"
        "\<forall>r c. r < length ?c1 \<longrightarrow> c < length (?c1 ! r) \<longrightarrow>
                 canvas' ! r ! c =
                   (if fst org \<le> r \<and> snd org \<le> c \<and> (r - fst org, c - snd org) \<in> set nz
                    then b ! (r - fst org) ! (c - snd org) else ?c1 ! r ! c)"
    by blast
  have len1: "length ?c1 = length canvas" by simp
  have rows1: "length (?c1 ! r) = length (canvas ! r)" if "r < length canvas" for r
    using that by (cases "r = fst org + i") simp_all
  have cell1: "?c1 ! r ! c = (if r = fst org + i \<and> c = snd org + j then b ! i ! j else canvas ! r ! c)"
    if "r < length canvas" "c < length (canvas ! r)" for r c
    using that by (cases "r = fst org + i"; cases "c = snd org + j") simp_all
  show ?case
  proof (intro exI conjI allI impI)
    show "view_assign org shp b (ij # nz) canvas = Inr canvas'" using step c'(1) by simp
    show "length canvas' = length canvas" using c'(2) by simp
    show "\<And>r. r < length canvas \<Longrightarrow> length (canvas' ! r) = length (canvas ! r)"
      using c'(3) rows1 by simp
    fix r c assume rc: "r < length canvas" "c < length (canvas ! r)"
    have "canvas' ! r ! c =
                   (if fst org \<le> r \<and> snd org \<le> c \<and> (r - fst org, c - snd org) \<in> set nz
                    then b ! (r - fst org) ! (c - snd org) else ?c1 ! r ! c)"
      using c'(4) rc rows1 by simp
    also have "\<dots> = (if fst org \<le> r \<and> snd org \<le> c \<and> (r - fst org, c - snd org) \<in> set (ij # nz)
                    then b ! (r - fst org) ! (c - snd org) else canvas ! r ! c)"
      using cell1 [OF rc] ij by auto
    finally show "canvas' ! r ! c =
                   (if fst org \<le> r \<and> snd org \<le> c \<and> (r - fst org, c - snd org) \<in> set (ij # nz)
                    then b ! (r - fst org) ! (c - snd org) else canvas ! r ! c)" .
  qed
qed

lemma place_cells:
  "\<exists>canvas'. place_object_in_bag canvas pos raster = Inr canvas'
     \<and> length canvas' = length canvas
     \<and> (\<forall>r < length canvas. length (canvas' ! r) = length (canvas ! r))
     \<and> (\<forall>r c. r < length canvas \<longrightarrow> c < length (canvas ! r) \<longrightarrow>
           canvas' ! r ! c =
             (case covering canvas pos raster r c of
                None \<Rightarrow> canvas ! r ! c
              | Some v \<Rightarrow> if v \<noteq> 0 then v else canvas ! r ! c))"
proof -
  define org where "org = window_org canvas pos raster"
  define shp where "shp = window_shape canvas pos raster"
  define b where "b = map (take (snd shp)) (take (fst shp) raster)"
  define nz where "nz = nonzero_idx b"
  have mem: "(i, j) \<in> set nz \<longleftrightarrow>
       i < fst shp \<and> i < length raster \<and> j < snd shp \<and> j < length (raster ! i) \<and> raster ! i ! j \<noteq> 0"
    for i j
    unfolding nz_def b_def by (auto simp: nonzero_idx_iff)
  have bval: "b ! i ! j = raster ! i ! j" if "(i, j) \<in> set nz" for i j
    using that unfolding nz_def b_def by (auto simp: nonzero_idx_iff)
  have inb: "\<forall>ij \<in> set nz. fst ij < fst shp \<and> snd ij < snd shp"
    using mem by auto
  from view_assign_cells [OF inb, of org b canvas] obtain canvas' where
    c1: "view_assign org shp b nz canvas = Inr canvas'" and
    c2: "length canvas' = length canvas" and
    c3: "\<forall>r < length canvas. length (canvas' ! r) = length (canvas ! r)" and
    c4: "\<And>r c. r < length canvas \<Longrightarrow> c < length (canvas ! r) \<Longrightarrow>
                 canvas' ! r ! c =
                   (if fst org \<le> r \<and> snd org \<le> c \<and> (r - fst org, c - snd org) \<in> set nz
                    then b ! (r - fst org) ! (c - snd org) else canvas ! r ! c)"
    by blast
  have cov: "covering canvas pos raster r c =
      (if fst org \<le> r \<and> r - fst org < fst shp \<and> r - fst org < length raster
            \<and> snd org \<le> c \<and> c - snd org < snd shp \<and> c - snd org < length (raster ! (r - fst org))
         then Some (raster ! (r - fst org) ! (c - snd org)) else None)" for r c
    by (simp add: covering_def org_def shp_def Let_def)
  have "place_object_in_bag canvas pos raster = Inr canvas'"
    using c1 by (simp add: place_object_in_bag_def Let_def org_def shp_def b_def nz_def)
  moreover have "canvas' ! r ! c =
             (case covering canvas pos raster r c of
                None \<Rightarrow> canvas ! r ! c
              | Some v \<Rightarrow> if v \<noteq> 0 then v else canvas ! r ! c)"
    if rc: "r < length canvas" "c < length (canvas ! r)" for r c
  proof (cases "fst org \<le> r \<and> snd org \<le> c \<and> (r - fst org, c - snd org) \<in> set nz")
    case True
    then have m: "(r - fst org, c - snd org) \<in> set nz" by simp
    have "canvas' ! r ! c = b ! (r - fst org) ! (c - snd org)"
      using c4 [OF rc] True by simp
    then have v: "canvas' ! r ! c = raster ! (r - fst org) ! (c - snd org)"
      using bval [OF m] by simp
    have "covering canvas pos raster r c = Some (raster ! (r - fst org) ! (c - snd org))"
      using True m mem [of "r - fst org" "c - snd org"] by (simp add: cov)
    moreover have "raster ! (r - fst org) ! (c - snd org) \<noteq> 0"
      using m mem [of "r - fst org" "c - snd org"] by simp
    ultimately show ?thesis using v by simp
  next
    case False
    then have v: "canvas' ! r ! c = canvas ! r ! c" using c4 [OF rc] by auto
    have "covering canvas pos raster r c = None \<or> covering canvas pos raster r c = Some 0"
      using False mem [of "r - fst org" "c - snd org"] by (auto simp: cov)
    then show ?thesis using v by auto
  qed
  ultimately show ?thesis using c2 c3 by blast
qed

text \<open>
  Claim C1, as stated, fails: the commit writes every nonzero pixel of the object's raster,
  whatever the canvas cell held. Here a cell holding the label 5 is overwritten with 3.
\<close>

theorem place_object_in_bag_overwrites_foreground:
  "place_object_in_bag [[5]] (0, 0) [[3]] = Inr [[3]] \<and> [[5::int]] ! 0 ! 0 \<noteq> 0"
  by code_simp

text \<open>
  Claim C1, amended: the commit changes a canvas cell only where a nonzero pixel of the
  object's truncated raster lies over it, and there the cell takes the pixel's value whatever
  it held before; every other cell keeps its value, so a previously placed label lying under
  a zero pixel of the raster, or outside its window, is never erased.
\<close>

theorem place_object_in_bag_writes_mask_only:
  assumes "place_object_in_bag canvas pos raster = Inr canvas'"
    and "r < length canvas" and "c < length (canvas ! r)"
  shows "canvas' ! r ! c =
           (case covering canvas pos raster r c of
              None \<Rightarrow> canvas ! r ! c
            | Some v \<Rightarrow> if v \<noteq> 0 then v else canvas ! r ! c)"
  using place_cells [of canvas pos raster] assms by auto

theorem place_object_in_bag_writes_mask_only_witness:
  "place_object_in_bag [[0, 0], [0, 7]] (1, 0) [[3, 0, 4], [3, 3, 3]] = Inr [[0, 0], [3, 7]]
   \<and> (1::nat) < length [[0, 0], [0, 7::int]] \<and> (1::nat) < length ([[0, 0], [0, 7::int]] ! 1)
   \<and> covering [[0, 0], [0, 7]] (1, 0) [[3, 0, 4], [3, 3, 3]] 1 1 = Some 0
   \<and> [[0, 0], [3, 7::int]] ! 1 ! 1 = 7"
proof -
  have h: "place_object_in_bag [[0, 0], [0, 7]] (1, 0) [[3, 0, 4], [3, 3, 3]] = Inr [[0, 0], [3, 7]]"
    by code_simp
  have c: "covering [[0, 0], [0, 7]] (1, 0) [[3, 0, 4], [3, 3, 3]] 1 1 = Some 0"
    by code_simp
  have "[[0, 0], [3, 7::int]] ! 1 ! 1 =
           (case covering [[0, 0], [0, 7]] (1, 0) [[3, 0, 4], [3, 3, 3]] 1 1 of
              None \<Rightarrow> [[0, 0], [0, 7]] ! 1 ! 1
            | Some v \<Rightarrow> if v \<noteq> 0 then v else [[0, 0], [0, 7]] ! 1 ! 1)"
    using place_object_in_bag_writes_mask_only [OF h, of 1 1] by simp
  then show ?thesis using h c by simp
qed

lemma slice_nonneg:
  "slice_lo n (int q) (int q + int h) = min q n"
  "slice_len n (int q) (int q + int h) = min (q + h) n - min q n"
  by (simp_all add: slice_lo_def slice_len_def slice_index_def nat_add_distrib)

lemma window_1d:
  assumes "0 \<le> p" "r < n"
  shows "(slice_lo n p (p + int h) \<le> r \<and> r - slice_lo n p (p + int h) < slice_len n p (p + int h)
            \<and> r - slice_lo n p (p + int h) < h)
         \<longleftrightarrow> (p \<le> int r \<and> int r < p + int h)"
    and "p \<le> int r \<Longrightarrow> r - slice_lo n p (p + int h) = r - nat p"
proof -
  obtain q where q: "p = int q" using assms(1) by (metis nat_0_le)
  show "(slice_lo n p (p + int h) \<le> r \<and> r - slice_lo n p (p + int h) < slice_len n p (p + int h)
            \<and> r - slice_lo n p (p + int h) < h)
         \<longleftrightarrow> (p \<le> int r \<and> int r < p + int h)"
    unfolding q slice_nonneg using assms(2) by (simp add: min_def) arith
  show "r - slice_lo n p (p + int h) = r - nat p" if "p \<le> int r"
    using that assms(2) unfolding q slice_nonneg by simp
qed

lemma covering_nonneg:
  assumes "rect raster" "0 \<le> fst pos" "0 \<le> snd pos"
    "r < nrows canvas" "c < ncols canvas"
  shows "covering canvas pos raster r c =
    (if fst pos \<le> int r \<and> int r < fst pos + int (nrows raster)
        \<and> snd pos \<le> int c \<and> int c < snd pos + int (ncols raster)
     then Some (raster ! (r - nat (fst pos)) ! (c - nat (snd pos))) else None)"
proof -
  define r0 where "r0 = slice_lo (nrows canvas) (fst pos) (fst pos + int (nrows raster))"
  define s0 where "s0 = slice_len (nrows canvas) (fst pos) (fst pos + int (nrows raster))"
  define c0 where "c0 = slice_lo (ncols canvas) (snd pos) (snd pos + int (ncols raster))"
  define s1 where "s1 = slice_len (ncols canvas) (snd pos) (snd pos + int (ncols raster))"
  have cov: "covering canvas pos raster r c =
      (if r0 \<le> r \<and> r - r0 < s0 \<and> r - r0 < length raster
            \<and> c0 \<le> c \<and> c - c0 < s1 \<and> c - c0 < length (raster ! (r - r0))
         then Some (raster ! (r - r0) ! (c - c0)) else None)"
    by (simp add: covering_def window_org_def window_shape_def Let_def r0_def s0_def c0_def s1_def)
  have R: "(r0 \<le> r \<and> r - r0 < s0 \<and> r - r0 < nrows raster)
             \<longleftrightarrow> (fst pos \<le> int r \<and> int r < fst pos + int (nrows raster))"
    unfolding r0_def s0_def using window_1d(1) [OF assms(2,4)] .
  have C: "(c0 \<le> c \<and> c - c0 < s1 \<and> c - c0 < ncols raster)
             \<longleftrightarrow> (snd pos \<le> int c \<and> int c < snd pos + int (ncols raster))"
    unfolding c0_def s1_def using window_1d(1) [OF assms(3,5)] .
  have R': "r - r0 = r - nat (fst pos)" if "fst pos \<le> int r"
    unfolding r0_def using window_1d(2) [OF assms(2,4) that] .
  have C': "c - c0 = c - nat (snd pos)" if "snd pos \<le> int c"
    unfolding c0_def using window_1d(2) [OF assms(3,5) that] .
  show ?thesis
  proof (cases "fst pos \<le> int r \<and> int r < fst pos + int (nrows raster)")
    case False
    then have "\<not> (r0 \<le> r \<and> r - r0 < s0 \<and> r - r0 < length raster)"
      using R by (simp add: nrows_def)
    then show ?thesis using False unfolding cov by auto
  next
    case rT: True
    then have rr: "r0 \<le> r" "r - r0 < s0" "r - r0 < length raster"
      using R by (simp_all add: nrows_def)
    have len: "length (raster ! (r - r0)) = ncols raster"
      using rect_nth [OF assms(1) rr(3)] .
    show ?thesis
    proof (cases "snd pos \<le> int c \<and> int c < snd pos + int (ncols raster)")
      case False
      then have "\<not> (c0 \<le> c \<and> c - c0 < s1 \<and> c - c0 < length (raster ! (r - r0)))"
        using C len by simp
      then show ?thesis using False unfolding cov by auto
    next
      case cT: True
      then have cc: "c0 \<le> c" "c - c0 < s1" "c - c0 < length (raster ! (r - r0))"
        using C len by simp_all
      have "covering canvas pos raster r c = Some (raster ! (r - r0) ! (c - c0))"
        unfolding cov using rr cc by simp
      then show ?thesis using rT cT R' C' by simp
    qed
  qed
qed

text \<open>
  Claim C10, as stated, fails for a pose with a negative coordinate, which reaches the
  commits of lines 1551 and 1809 through the upward shifts of the overlap rule. Python's
  slice then counts its bounds from the far edge of the canvas. A one-pixel object lying
  wholly above the canvas, at row \<open>-2\<close>, is written into row 0 and erases the label 5
  there; and of an object at row \<open>-1\<close>, whose second row lies inside the canvas, nothing
  is written, because the slice \<open>[-1:1]\<close> of a two-row canvas is empty.
\<close>

theorem place_object_in_bag_wraps_negative_pose:
  "place_object_in_bag [[5], [0]] (- 2, 0) [[1]] = Inr [[1], [0]]
   \<and> place_object_in_bag [[0, 0], [0, 7]] (- 1, 0) [[3, 0, 4], [3, 3, 3]] = Inr [[0, 0], [0, 7]]"
  by code_simp

text \<open>
  Claim C10, amended: the commit is total with respect to the canvas bounds for every pose.
  It never raises IndexError: the window selected by the two slices lies inside the canvas,
  the raster is cut to the window's shape before anything is written, and the canvas keeps
  its shape. The window starts at \<open>slice_index\<close> of the pose, which is the pose itself
  (clipped to the canvas) when the coordinate is non-negative and counts from the far edge
  when it is negative; the cells written are the nonzero pixels of the leading rows and
  columns of the raster, laid from the window's origin (\<open>covering\<close>). With a pose inside
  the first quadrant, that is for a raster that passes the bottom or the right edge only,
  the cells written are exactly the in-bounds part of the raster's nonzero pixels, each at
  \<open>pose + index\<close>.
\<close>

theorem place_object_in_bag_in_bounds:
  assumes "rect canvas" and "rect raster"
  shows "\<exists>canvas'. place_object_in_bag canvas pos raster = Inr canvas'
     \<and> nrows canvas' = nrows canvas \<and> (\<forall>r < nrows canvas. length (canvas' ! r) = ncols canvas)
     \<and> window_org canvas pos raster
         = (slice_index (nrows canvas) (fst pos), slice_index (ncols canvas) (snd pos))
     \<and> fst (window_org canvas pos raster) + fst (window_shape canvas pos raster) \<le> nrows canvas
     \<and> snd (window_org canvas pos raster) + snd (window_shape canvas pos raster) \<le> ncols canvas
     \<and> (\<forall>r < nrows canvas. \<forall>c < ncols canvas.
          canvas' ! r ! c =
            (case covering canvas pos raster r c of
               None \<Rightarrow> canvas ! r ! c
             | Some v \<Rightarrow> if v \<noteq> 0 then v else canvas ! r ! c))
     \<and> (0 \<le> fst pos \<and> 0 \<le> snd pos \<longrightarrow>
          (\<forall>r < nrows canvas. \<forall>c < ncols canvas.
             canvas' ! r ! c =
               (if fst pos \<le> int r \<and> int r < fst pos + int (nrows raster)
                   \<and> snd pos \<le> int c \<and> int c < snd pos + int (ncols raster)
                   \<and> raster ! (r - nat (fst pos)) ! (c - nat (snd pos)) \<noteq> 0
                then raster ! (r - nat (fst pos)) ! (c - nat (snd pos))
                else canvas ! r ! c)))"
proof -
  from place_cells [of canvas pos raster] obtain canvas' where
    p: "place_object_in_bag canvas pos raster = Inr canvas'" and
    l: "length canvas' = length canvas" and
    rw: "\<forall>r < length canvas. length (canvas' ! r) = length (canvas ! r)" and
    cell: "\<And>r c. r < length canvas \<Longrightarrow> c < length (canvas ! r) \<Longrightarrow>
           canvas' ! r ! c =
             (case covering canvas pos raster r c of
                None \<Rightarrow> canvas ! r ! c
              | Some v \<Rightarrow> if v \<noteq> 0 then v else canvas ! r ! c)"
    by blast
  have rows: "length (canvas ! r) = ncols canvas" if "r < length canvas" for r
    using rect_nth [OF assms(1) that] .
  have wo: "window_org canvas pos raster
         = (slice_index (nrows canvas) (fst pos), slice_index (ncols canvas) (snd pos))"
    by (simp add: window_org_def slice_lo_def)
  have w0: "fst (window_org canvas pos raster) + fst (window_shape canvas pos raster) \<le> nrows canvas"
    using slice_window_le by (simp add: window_org_def window_shape_def)
  have w1: "snd (window_org canvas pos raster) + snd (window_shape canvas pos raster) \<le> ncols canvas"
    using slice_window_le by (simp add: window_org_def window_shape_def)
  have gen: "canvas' ! r ! c =
            (case covering canvas pos raster r c of
               None \<Rightarrow> canvas ! r ! c
             | Some v \<Rightarrow> if v \<noteq> 0 then v else canvas ! r ! c)"
    if "r < nrows canvas" "c < ncols canvas" for r c
  proof -
    have "r < length canvas" "c < length (canvas ! r)"
      using that rows by (simp_all add: nrows_def)
    from cell [OF this] show ?thesis .
  qed
  have nn: "canvas' ! r ! c =
               (if fst pos \<le> int r \<and> int r < fst pos + int (nrows raster)
                   \<and> snd pos \<le> int c \<and> int c < snd pos + int (ncols raster)
                   \<and> raster ! (r - nat (fst pos)) ! (c - nat (snd pos)) \<noteq> 0
                then raster ! (r - nat (fst pos)) ! (c - nat (snd pos))
                else canvas ! r ! c)"
    if "0 \<le> fst pos" "0 \<le> snd pos" "r < nrows canvas" "c < ncols canvas" for r c
    using gen [OF that(3,4)] covering_nonneg [OF assms(2) that] by simp
  have a: "nrows canvas' = nrows canvas" using l by (simp add: nrows_def)
  have b: "\<forall>r < nrows canvas. length (canvas' ! r) = ncols canvas"
    using rw rows by (simp add: nrows_def)
  have g: "\<forall>r < nrows canvas. \<forall>c < ncols canvas.
          canvas' ! r ! c =
            (case covering canvas pos raster r c of
               None \<Rightarrow> canvas ! r ! c
             | Some v \<Rightarrow> if v \<noteq> 0 then v else canvas ! r ! c)"
    using gen by blast
  have c: "0 \<le> fst pos \<and> 0 \<le> snd pos \<longrightarrow>
          (\<forall>r < nrows canvas. \<forall>c < ncols canvas.
             canvas' ! r ! c =
               (if fst pos \<le> int r \<and> int r < fst pos + int (nrows raster)
                   \<and> snd pos \<le> int c \<and> int c < snd pos + int (ncols raster)
                   \<and> raster ! (r - nat (fst pos)) ! (c - nat (snd pos)) \<noteq> 0
                then raster ! (r - nat (fst pos)) ! (c - nat (snd pos))
                else canvas ! r ! c))"
    using nn by blast
  show ?thesis
    by (rule exI [of _ canvas']) (intro conjI p a b wo w0 w1 g c)
qed

theorem place_object_in_bag_in_bounds_witness:
  "rect [[0, 0], [0, 7::int]] \<and> rect [[3, 0, 4], [3, 3, 3::int]]
   \<and> (0::int) \<le> fst (1::int, 0::int) \<and> (0::int) \<le> snd (1::int, 0::int)
   \<and> (1::nat) < nrows [[0, 0], [0, 7::int]] \<and> (0::nat) < ncols [[0, 0], [0, 7::int]]
   \<and> (\<exists>canvas'. place_object_in_bag [[0, 0], [0, 7]] (1, 0) [[3, 0, 4], [3, 3, 3]] = Inr canvas'
         \<and> nrows canvas' = nrows [[0, 0], [0, 7::int]] \<and> canvas' ! 1 ! 0 = 3)
   \<and> window_org [[0, 0], [0, 7]] (- 1, 0) [[3, 0, 4], [3, 3, 3]] = (1, 0)
   \<and> fst (window_shape [[0, 0], [0, 7]] (- 1, 0) [[3, 0, 4], [3, 3, 3]]) = 0"
proof -
  have h1: "rect [[0, 0], [0, 7::int]]" by code_simp
  have h2: "rect [[3, 0, 4], [3, 3, 3::int]]" by code_simp
  from place_object_in_bag_in_bounds [OF h1 h2, of "(1, 0)"] obtain canvas' where
    p: "place_object_in_bag [[0, 0], [0, 7]] (1, 0) [[3, 0, 4], [3, 3, 3]] = Inr canvas'" and
    n: "nrows canvas' = nrows [[0, 0], [0, 7::int]]" and
    c: "(0::int) \<le> fst (1::int, 0::int) \<and> (0::int) \<le> snd (1::int, 0::int) \<longrightarrow>
          (\<forall>r < nrows [[0, 0], [0, 7::int]]. \<forall>c < ncols [[0, 0], [0, 7::int]].
             canvas' ! r ! c =
               (if fst (1::int, 0::int) \<le> int r \<and> int r < fst (1::int, 0::int) + int (nrows [[3, 0, 4], [3, 3, 3::int]])
                   \<and> snd (1::int, 0::int) \<le> int c \<and> int c < snd (1::int, 0::int) + int (ncols [[3, 0, 4], [3, 3, 3::int]])
                   \<and> [[3, 0, 4], [3, 3, 3::int]] ! (r - nat (fst (1::int, 0::int))) ! (c - nat (snd (1::int, 0::int))) \<noteq> 0
                then [[3, 0, 4], [3, 3, 3::int]] ! (r - nat (fst (1::int, 0::int))) ! (c - nat (snd (1::int, 0::int)))
                else [[0, 0], [0, 7::int]] ! r ! c))"
    by (elim exE conjE)
  have "canvas' ! 1 ! 0 = 3"
    using c [rule_format, of 1 0] by (simp add: nrows_def ncols_def)
  then have e: "\<exists>canvas'. place_object_in_bag [[0, 0], [0, 7]] (1, 0) [[3, 0, 4], [3, 3, 3]] = Inr canvas'
         \<and> nrows canvas' = nrows [[0, 0], [0, 7::int]] \<and> canvas' ! 1 ! 0 = 3"
    using p n by blast
  from place_object_in_bag_in_bounds [OF h1 h2, of "(- 1, 0)"] have
    "window_org [[0, 0], [0, 7]] (- 1, 0) [[3, 0, 4], [3, 3, 3]]
       = (slice_index (nrows [[0, 0], [0, 7::int]]) (fst (- 1::int, 0::int)),
          slice_index (ncols [[0, 0], [0, 7::int]]) (snd (- 1::int, 0::int)))"
    by (elim exE conjE)
  then have w: "window_org [[0, 0], [0, 7]] (- 1, 0) [[3, 0, 4], [3, 3, 3]] = (1, 0)"
    by (simp add: slice_index_def nrows_def ncols_def)
  have s: "fst (window_shape [[0, 0], [0, 7]] (- 1, 0) [[3, 0, 4], [3, 3, 3]]) = 0"
    by code_simp
  have d: "(1::nat) < nrows [[0, 0], [0, 7::int]]" "(0::nat) < ncols [[0, 0], [0, 7::int]]"
    by (simp_all add: nrows_def ncols_def)
  show ?thesis using h1 h2 e w s d by simp
qed

section \<open>Properties of the component choice\<close>

lemma fold_max_ge: "a \<le> fold max xs (a::nat)" 
  by (induction xs arbitrary: a) (auto intro: order_trans [OF max.cobounded2])

lemma fold_max_mem_ge: "x \<in> set xs \<Longrightarrow> x \<le> fold max xs (a::nat)"
proof (induction xs arbitrary: a)
  case Nil then show ?case by simp
next
  case (Cons y ys)
  show ?case
  proof (cases "x = y")
    case True
    have "y \<le> max y a" by simp
    also have "\<dots> \<le> fold max ys (max y a)" by (rule fold_max_ge)
    finally show ?thesis using True by simp
  next
    case False
    then have "x \<in> set ys" using Cons.prems by simp
    then show ?thesis using Cons.IH by simp
  qed
qed

lemma fold_max_in: "fold max xs (a::nat) = a \<or> fold max xs a \<in> set xs"
proof (induction xs arbitrary: a)
  case Nil then show ?case by simp
next
  case (Cons y ys)
  from Cons.IH [of "max y a"] show ?case by (auto simp: max_def split: if_splits)
qed

lemma fold_max0_in: "xs \<noteq> [] \<Longrightarrow> fold max xs (0::nat) \<in> set xs"
proof -
  assume ne: "xs \<noteq> []"
  from fold_max_in [of xs 0] show ?thesis
  proof
    assume z: "fold max xs 0 = 0"
    obtain x where x: "x \<in> set xs" using ne by (cases xs) auto
    then have "x \<le> 0" using fold_max_mem_ge [of x xs 0] z by simp
    then show ?thesis using x z by simp
  qed simp
qed

lemma takeWhile_neq_less:
  "m \<in> set xs \<Longrightarrow> length (takeWhile (\<lambda>v. v \<noteq> m) xs) < length xs"
  by (induction xs) auto

lemma argmax_props:
  assumes "xs \<noteq> []"
  shows "argmax xs < length xs"
    and "xs ! argmax xs = fold max xs 0"
    and "\<forall>i < length xs. xs ! i \<le> xs ! argmax xs"
    and "\<forall>i < argmax xs. xs ! i < xs ! argmax xs"
proof -
  let ?m = "fold max xs 0"
  have mem: "?m \<in> set xs" using fold_max0_in [OF assms] .
  have lt: "length (takeWhile (\<lambda>v. v \<noteq> ?m) xs) < length xs"
    using mem by (rule takeWhile_neq_less)
  show 1: "argmax xs < length xs" using lt by (simp add: argmax_def)
  show 2: "xs ! argmax xs = ?m"
    using nth_length_takeWhile [OF lt] by (simp add: argmax_def)
  show 3: "\<forall>i < length xs. xs ! i \<le> xs ! argmax xs"
    using 2 fold_max_mem_ge [of _ xs 0] by simp
  show "\<forall>i < argmax xs. xs ! i < xs ! argmax xs"
  proof (intro allI impI)
    fix i assume i: "i < argmax xs"
    then have "takeWhile (\<lambda>v. v \<noteq> ?m) xs ! i \<noteq> ?m"
      using nth_mem [of i "takeWhile (\<lambda>v. v \<noteq> ?m) xs"] set_takeWhileD
      by (fastforce simp: argmax_def)
    then have "xs ! i \<noteq> ?m" using i by (simp add: argmax_def takeWhile_nth)
    moreover have "xs ! i \<le> ?m" using 3 2 i 1 by simp
    ultimately show "xs ! i < xs ! argmax xs" using 2 by simp
  qed
qed

lemma sum_filter_eq: "sum_list (filter (\<lambda>v. v = x) ys) = x * length (filter (\<lambda>v. v = x) ys)"
  for x :: nat
  by (induction ys) auto

lemma pix_cnt_nth:
  assumes "i < img_max lab"
  shows "pix_cnt lab ! i = pixel_count lab (i + 1)"
proof -
  have "[1..<img_max lab + 1] ! i = i + 1"
    using assms nth_upt [of 1 i "img_max lab + 1"] by simp
  then have "pix_cnt lab ! i =
      sum_list (filter (\<lambda>v. v = i + 1) (concat lab)) div (i + 1)"
    using assms unfolding pix_cnt_def by (simp del: upt_Suc)
  moreover have "sum_list (filter (\<lambda>v. v = i + 1) (concat lab)) div (i + 1)
      = pixel_count lab (i + 1)"
    unfolding pixel_count_def sum_filter_eq by (rule nonzero_mult_div_cancel_left) simp
  ultimately show ?thesis by simp
qed

lemma length_pix_cnt: "length (pix_cnt lab) = img_max lab"
  by (simp add: pix_cnt_def del: upt_Suc)

lemma img_max_ge: "v \<in> set (concat lab) \<Longrightarrow> v \<le> img_max lab"
  unfolding img_max_def by (rule fold_max_mem_ge)

lemma pixel_count_zero: "x \<notin> set (concat lab) \<Longrightarrow> pixel_count lab x = 0"
  unfolding pixel_count_def by (induction "concat lab" arbitrary: lab) (auto simp: filter_empty_conv)

lemma pixel_count_pos: "x \<in> set (concat lab) \<Longrightarrow> 1 \<le> pixel_count lab x"
proof -
  assume "x \<in> set (concat lab)"
  then have "filter (\<lambda>v. v = x) (concat lab) \<noteq> []" by (auto simp: filter_empty_conv)
  then show ?thesis unfolding pixel_count_def by (cases "filter (\<lambda>v. v = x) (concat lab)") auto
qed

text \<open>
  Claim C7: when the intersection has at least one component (some cell of the labelled
  image carries a label \<open>v \<ge> 1\<close>), the step keeps exactly the cells of one component,
  \<open>max_ind\<close>, and clears all others; that component occurs in the image, no label
  whatsoever has more cells than it, and every label with a smaller index has strictly
  fewer cells, so among components of equal maximal count the smallest index is chosen.
  The comparison ranges over all labels \<open>x \<ge> 1\<close>, not only over those the list
  comprehension of line 1488 visits.
\<close>

theorem select_component_largest_first:
  assumes "v \<in> set (concat lab)" and "1 \<le> v"
  shows "select_component lab = Inr (map (map (\<lambda>u. u = max_ind lab)) lab)
     \<and> 1 \<le> max_ind lab \<and> max_ind lab \<in> set (concat lab)
     \<and> 1 \<le> pixel_count lab (max_ind lab)
     \<and> (\<forall>x. 1 \<le> x \<longrightarrow> pixel_count lab x \<le> pixel_count lab (max_ind lab))
     \<and> (\<forall>x. 1 \<le> x \<and> x < max_ind lab \<longrightarrow> pixel_count lab x < pixel_count lab (max_ind lab))"
proof -
  have im: "1 \<le> img_max lab" using img_max_ge [OF assms(1)] assms(2) by simp
  have ne: "pix_cnt lab \<noteq> []"
    using im length_pix_cnt [of lab] by auto
  have ne': "concat lab \<noteq> []"
  proof
    assume c: "concat lab = []"
    show False using assms(1) unfolding c by simp
  qed
  have sel: "select_component lab = Inr (map (map (\<lambda>u. u = max_ind lab)) lab)"
    using ne ne' by (simp add: select_component_def)
  note A = argmax_props [OF ne]
  have lt: "argmax (pix_cnt lab) < img_max lab" using A(1) by (simp add: length_pix_cnt)
  have top: "pix_cnt lab ! argmax (pix_cnt lab) = pixel_count lab (max_ind lab)"
    using pix_cnt_nth [OF lt] by (simp add: max_ind_def)
  have ge: "pixel_count lab x \<le> pixel_count lab (max_ind lab)" if "1 \<le> x" for x
  proof (cases "x \<le> img_max lab")
    case True
    have i: "x - 1 < img_max lab" using that True by simp
    have "pix_cnt lab ! (x - 1) \<le> pix_cnt lab ! argmax (pix_cnt lab)"
      using A(3) i by (simp add: length_pix_cnt)
    then show ?thesis using pix_cnt_nth [OF i] top that by simp
  next
    case False
    then have "x \<notin> set (concat lab)" using img_max_ge [of x lab] by auto
    then show ?thesis by (simp add: pixel_count_zero)
  qed
  have gt: "pixel_count lab x < pixel_count lab (max_ind lab)" if "1 \<le> x" "x < max_ind lab" for x
  proof -
    have i: "x - 1 < argmax (pix_cnt lab)" using that by (simp add: max_ind_def)
    then have i': "x - 1 < img_max lab" using lt by simp
    have "pix_cnt lab ! (x - 1) < pix_cnt lab ! argmax (pix_cnt lab)"
      using A(4) i by simp
    then show ?thesis using pix_cnt_nth [OF i'] top that by simp
  qed
  have pos: "1 \<le> pixel_count lab (max_ind lab)"
    using pixel_count_pos [OF assms(1)] ge [OF assms(2)] by simp
  have mem: "max_ind lab \<in> set (concat lab)"
  proof (rule ccontr)
    assume "max_ind lab \<notin> set (concat lab)"
    then have "pixel_count lab (max_ind lab) = 0" by (rule pixel_count_zero)
    then show False using pos by simp
  qed
  show ?thesis using sel ge gt pos mem by (simp add: max_ind_def)
qed

theorem select_component_largest_first_witness:
  "(2::nat) \<in> set (concat [[0, 1, 0], [0, 0, 0], [2, 2, 0], [0, 0, 3], [0, 3, 3]]) \<and> (1::nat) \<le> 2
   \<and> select_component [[0, 1, 0], [0, 0, 0], [2, 2, 0], [0, 0, 3], [0, 3, 3]]
       = Inr [[False, False, False], [False, False, False], [False, False, False],
              [False, False, True], [False, True, True]]
   \<and> max_ind [[0, 1, 0], [0, 0, 0], [2, 2, 0], [0, 0, 3], [0, 3, 3]] = 3
   \<and> pixel_count [[0, 1, 0], [0, 0, 0], [2, 2, 0], [0, 0, 3], [0, 3, 3]] 1 = 1
   \<and> pixel_count [[0, 1, 0], [0, 0, 0], [2, 2, 0], [0, 0, 3], [0, 3, 3]] 2 = 2
   \<and> pixel_count [[0, 1, 0], [0, 0, 0], [2, 2, 0], [0, 0, 3], [0, 3, 3]] 3 = 3
   \<and> select_component [[0, 1, 1], [0, 0, 0], [2, 2, 0]]
       = Inr [[False, True, True], [False, False, False], [False, False, False]]
   \<and> pixel_count [[0, 1, 1], [0, 0, 0], [2, 2, 0]] 1 = pixel_count [[0, 1, 1], [0, 0, 0], [2, 2, 0]] 2"
proof -
  let ?a = "[[0, 1, 0], [0, 0, 0], [2, 2, 0], [0, 0, 3], [0, 3, 3]] :: nat list list"
  let ?b = "[[0, 1, 1], [0, 0, 0], [2, 2, 0]] :: nat list list"
  have h: "(2::nat) \<in> set (concat ?a)" by simp
  have h': "(2::nat) \<in> set (concat ?b)" by simp
  have ma: "max_ind ?a = 3" by code_simp
  have mb: "max_ind ?b = 1" by code_simp
  have p1: "pixel_count ?a 1 = 1" by code_simp
  have p2: "pixel_count ?a 2 = 2" by code_simp
  have p3: "pixel_count ?a 3 = 3" by code_simp
  have pb: "pixel_count ?b 1 = pixel_count ?b 2" by code_simp
  have "select_component ?a = Inr (map (map (\<lambda>u. u = max_ind ?a)) ?a)"
    using select_component_largest_first [OF h] by simp
  then have sa: "select_component ?a
       = Inr [[False, False, False], [False, False, False], [False, False, False],
              [False, False, True], [False, True, True]]"
    unfolding ma by simp
  have "select_component ?b = Inr (map (map (\<lambda>u. u = max_ind ?b)) ?b)"
    using select_component_largest_first [OF h'] by simp
  then have sb: "select_component ?b
       = Inr [[False, True, True], [False, False, False], [False, False, False]]"
    unfolding mb by simp
  show ?thesis using h sa sb ma p1 p2 p3 pb by simp
qed

section \<open>The bounding-box crop keeps a border\<close>

text \<open>
  Claim C2 does not hold of the code: the crop's slice stops at \<open>min + box_dim + 1\<close>, one
  past the bounding box, so a background row or column that follows the box in the
  drawing buffer stays in the mask. For a box of dimensions \<open>(10, 5)\<close> and no rotation
  (\<open>scipy.ndimage.rotate\<close> by the angle 0 with \<open>order=0\<close> returns the buffer unchanged) the
  mask has 10 rows and 7 columns, and its last column is background in every row.
\<close>

theorem create_rectanguloid_keeps_empty_column:
  "(case create_rectanguloid (\<lambda>_ m. m) (10, 5) () of
      Inl _ \<Rightarrow> False
    | Inr m \<Rightarrow> nrows m = 10 \<and> ncols m = 7 \<and> list_all (\<lambda>r. \<not> last r) m \<and> \<not> tight m)"
  by code_simp


section \<open>Properties of the liquid rule\<close>

lemma assign_idx_shape:
  assumes "assign_idx a idx v = Inr a'"
  shows "length a' = length a" and "i < length a \<Longrightarrow> length (a' ! i) = length (a ! i)"
proof -
  have a': "a' = map (\<lambda>(i, row). map (\<lambda>(j, x). if (i, j) \<in> set idx then v else x)
                                     (zip [0..<length row] row))
                    (zip [0..<length a] a)"
    using assms by (simp add: assign_idx_def split: if_splits)
  show "length a' = length a" by (simp add: a')
  show "length (a' ! i) = length (a ! i)" if "i < length a"
    using that by (simp add: a')
qed

lemma assign_idx_cell:
  assumes "assign_idx a idx v = Inr a'" and "i < length a" and "j < length (a ! i)"
  shows "a' ! i ! j = (if (i, j) \<in> set idx then v else a ! i ! j)"
proof -
  have a': "a' = map (\<lambda>(i, row). map (\<lambda>(j, x). if (i, j) \<in> set idx then v else x)
                                     (zip [0..<length row] row))
                    (zip [0..<length a] a)"
    using assms(1) by (simp add: assign_idx_def split: if_splits)
  show ?thesis using assms(2,3) by (simp add: a')
qed

lemma assign_idx_ok:
  "int64 v \<Longrightarrow> list_all (in_shape a) idx \<Longrightarrow> \<exists>a'. assign_idx a idx v = Inr a'"
  by (simp add: assign_idx_def)

lemma assign_idx_error:
  "assign_idx a idx v = Inl e \<Longrightarrow>
     (e = OverflowError \<and> \<not> int64 v) \<or> (e = IndexError \<and> int64 v \<and> \<not> list_all (in_shape a) idx)"
  by (auto simp: assign_idx_def split: if_splits)

lemma int64_minus_one: "int64 (- 1)"
  by (simp add: int64_def)

lemma true_idx_iff:
  "(i, j) \<in> set (true_idx b) \<longleftrightarrow> i < length b \<and> j < length (b ! i) \<and> b ! i ! j"
  by (auto simp: true_idx_def)

lemma clear_rows_length: "length (clear_rows img k) = length img"
  by (simp add: clear_rows_def)

lemma clear_rows_nth:
  "i < length img \<Longrightarrow>
     clear_rows img k ! i =
       (if i < slice_index (length img) k then map (\<lambda>_. False) (img ! i) else img ! i)"
  by (simp add: clear_rows_def)

lemma true_idx_clear_rows: "set (true_idx (clear_rows img k)) \<subseteq> set (true_idx img)"
proof
  fix ij assume m: "ij \<in> set (true_idx (clear_rows img k))"
  obtain i j where ij: "ij = (i, j)" by (cases ij)
  have i: "i < length img" using m ij by (simp add: true_idx_iff clear_rows_length)
  from m ij i have "j < length (clear_rows img k ! i) \<and> clear_rows img k ! i ! j"
    by (simp add: true_idx_iff)
  then have "j < length (img ! i) \<and> img ! i ! j"
    using i by (auto simp: clear_rows_nth split: if_splits)
  then show "ij \<in> set (true_idx img)" using i ij by (simp add: true_idx_iff)
qed

lemma in_shape_assign:
  assumes "assign_idx a idx v = Inr a'" and "in_shape a ij"
  shows "in_shape a' ij"
  using assms(2) assign_idx_shape [OF assms(1)] by (simp add: in_shape_def)

lemma liquid_rule_body_error:
  assumes "fst (liquid_rule_body erode fl self) = Some e"
  shows "snd (liquid_rule_body erode fl self) = data self
      \<or> (e = OverflowError \<and> \<not> int64 (lqd_label self)
          \<and> (\<exists>eroded_img.
                erode (cntr_thickness self) (map (map (\<lambda>v. v div label self)) (data self))
                  = Inr eroded_img
                \<and> assign_idx (data self) (true_idx eroded_img) (- 1)
                    = Inr (snd (liquid_rule_body erode fl self))))"
proof (cases "erode (cntr_thickness self) (map (map (\<lambda>v. v div label self)) (data self))")
  case (Inl e')
  then show ?thesis by (simp add: liquid_rule_body_def)
next
  case er: (Inr eroded_img)
  show ?thesis
  proof (cases "map fst (true_idx eroded_img) = []")
    case True
    then show ?thesis using er by (simp add: liquid_rule_body_def)
  next
    case False
    define e_row where "e_row = map fst (true_idx eroded_img)"
    define e_fill where "e_fill = py_int (fl (fl (1 - lqd_level self)
         * of_int (int (fold max e_row (hd e_row)) - int (fold min e_row (hd e_row)))))"
    have body: "liquid_rule_body erode fl self =
        (case assign_idx (data self) (true_idx eroded_img) (- 1) of
           Inl e \<Rightarrow> (Some e, data self)
         | Inr data1 \<Rightarrow>
             (case assign_idx data1 (true_idx (clear_rows eroded_img e_fill)) (lqd_label self) of
                Inl e \<Rightarrow> (Some e, data1)
              | Inr data2 \<Rightarrow> (None, data2)))"
      unfolding liquid_rule_body_def Let_def e_row_def e_fill_def
      using er False by (simp only: sum.case if_False)
    show ?thesis
    proof (cases "assign_idx (data self) (true_idx eroded_img) (- 1)")
      case (Inl e1)
      then show ?thesis by (simp add: body)
    next
      case d1: (Inr data1)
      have all1: "list_all (in_shape (data self)) (true_idx eroded_img)"
        using d1 by (simp add: assign_idx_def split: if_splits)
      have all2: "list_all (in_shape data1) (true_idx (clear_rows eroded_img e_fill))"
        unfolding list_all_iff
      proof
        fix ij assume "ij \<in> set (true_idx (clear_rows eroded_img e_fill))"
        then have "ij \<in> set (true_idx eroded_img)" using true_idx_clear_rows by blast
        then have "in_shape (data self) ij" using all1 by (simp add: list_all_iff)
        then show "in_shape data1 ij" using in_shape_assign [OF d1] by simp
      qed
      show ?thesis
      proof (cases "assign_idx data1 (true_idx (clear_rows eroded_img e_fill)) (lqd_label self)")
        case (Inr data2)
        then have "fst (liquid_rule_body erode fl self) = None"
          using d1 by (simp add: body)
        then show ?thesis using assms by simp
      next
        case (Inl e2)
        from assign_idx_error [OF Inl] all2
        have e2: "e2 = OverflowError" "\<not> int64 (lqd_label self)" by auto
        have b: "liquid_rule_body erode fl self = (Some e2, data1)"
          using d1 Inl by (simp add: body)
        then have "e = e2" using assms by simp
        then show ?thesis using e2 b er d1 by simp
      qed
    qed
  qed
qed

text \<open>
  Claim C9, as stated, fails when the liquid label is a Python integer that the int64
  raster cannot hold. Line 224 has then already marked the cavity with \<open>-1\<close> when line 225
  raises OverflowError; the handler swallows it and the container is committed with the
  five cavity cells changed.
\<close>

theorem liquid_rule_failure_after_first_write:
  "fst (liquid_rule_body sk_erode fl_exact
          \<lparr>data = [[0, 0, 4, 0, 0], [0, 4, 4, 4, 0], [4, 4, 4, 4, 4], [0, 4, 4, 4, 0], [0, 0, 4, 0, 0]],
           label = 4, cntr_thickness = 1, lqd_level = 1 / 2,
           lqd_label = 9223372036854775808\<rparr>) = Some OverflowError
   \<and> data (apply_liquid_container_rule sk_erode fl_exact
          \<lparr>data = [[0, 0, 4, 0, 0], [0, 4, 4, 4, 0], [4, 4, 4, 4, 4], [0, 4, 4, 4, 0], [0, 0, 4, 0, 0]],
           label = 4, cntr_thickness = 1, lqd_level = 1 / 2,
           lqd_label = 9223372036854775808\<rparr>)
       = [[0, 0, 4, 0, 0], [0, 4, - 1, 4, 0], [4, - 1, - 1, - 1, 4], [0, 4, - 1, 4, 0], [0, 0, 4, 0, 0]]"
  by code_simp

text \<open>
  Claim C9, amended: the rule returns to its caller in every case (the \<open>except: pass\<close>
  handler swallows whatever the body raises). When the body raises and the liquid label is
  a value that the int64 raster can hold, \<open>self.data\<close> is exactly what it was before the
  call, whatever the erosion and the rounding do, so the placement that follows (line 1278)
  commits the unmodified container. For a label outside that range the raster is either
  unmodified or, when the exception is the OverflowError of line 225, the original raster
  with the eroded cavity marked \<open>-1\<close> by line 224.
\<close>

theorem liquid_rule_failure_leaves_container:
  assumes "fst (liquid_rule_body erode fl self) = Some e"
  shows "(int64 (lqd_label self) \<longrightarrow>
            data (apply_liquid_container_rule erode fl self) = data self
            \<and> place_liquid_container erode fl canvas pos self
                = place_object_in_bag canvas pos (data self))
     \<and> (\<not> int64 (lqd_label self) \<longrightarrow>
            data (apply_liquid_container_rule erode fl self) = data self
            \<or> (e = OverflowError
                \<and> (\<exists>eroded_img.
                      erode (cntr_thickness self) (map (map (\<lambda>v. v div label self)) (data self))
                        = Inr eroded_img
                      \<and> assign_idx (data self) (true_idx eroded_img) (- 1)
                          = Inr (data (apply_liquid_container_rule erode fl self)))))"
proof -
  have d: "data (apply_liquid_container_rule erode fl self) = snd (liquid_rule_body erode fl self)"
    by (simp add: apply_liquid_container_rule_def)
  from liquid_rule_body_error [OF assms] show ?thesis
    unfolding place_liquid_container_def d by auto
qed

theorem liquid_rule_failure_leaves_container_witness:
  "fst (liquid_rule_body sk_erode fl_exact
          \<lparr>data = [[0, 0, 4, 0, 0], [0, 4, 4, 4, 0], [4, 4, 4, 4, 4], [0, 4, 4, 4, 0], [0, 0, 4, 0, 0]],
           label = 4, cntr_thickness = 3, lqd_level = 1 / 2, lqd_label = 9\<rparr>) = Some ValueError
   \<and> int64 9
   \<and> data (apply_liquid_container_rule sk_erode fl_exact
          \<lparr>data = [[0, 0, 4, 0, 0], [0, 4, 4, 4, 0], [4, 4, 4, 4, 4], [0, 4, 4, 4, 0], [0, 0, 4, 0, 0]],
           label = 4, cntr_thickness = 3, lqd_level = 1 / 2, lqd_label = 9\<rparr>)
       = [[0, 0, 4, 0, 0], [0, 4, 4, 4, 0], [4, 4, 4, 4, 4], [0, 4, 4, 4, 0], [0, 0, 4, 0, 0]]
   \<and> fst (liquid_rule_body draw_erode fl_exact
          \<lparr>data = [[0, 0, 4, 0, 0], [0, 4, 4, 4, 0], [4, 4, 4, 4, 4], [0, 4, 4, 4, 0], [0, 0, 4, 0, 0]],
           label = 4, cntr_thickness = 1, lqd_level = 1 / 2,
           lqd_label = 9223372036854775808\<rparr>) = Some TypeError
   \<and> \<not> int64 9223372036854775808
   \<and> data (apply_liquid_container_rule draw_erode fl_exact
          \<lparr>data = [[0, 0, 4, 0, 0], [0, 4, 4, 4, 0], [4, 4, 4, 4, 4], [0, 4, 4, 4, 0], [0, 0, 4, 0, 0]],
           label = 4, cntr_thickness = 1, lqd_level = 1 / 2,
           lqd_label = 9223372036854775808\<rparr>)
       = [[0, 0, 4, 0, 0], [0, 4, 4, 4, 0], [4, 4, 4, 4, 4], [0, 4, 4, 4, 0], [0, 0, 4, 0, 0]]"
proof -
  let ?d = "[[0, 0, 4, 0, 0], [0, 4, 4, 4, 0], [4, 4, 4, 4, 4], [0, 4, 4, 4, 0], [0, 0, 4, 0, 0]] :: image"
  let ?a = "\<lparr>data = ?d, label = 4, cntr_thickness = 3, lqd_level = 1 / 2, lqd_label = 9\<rparr>"
  let ?b = "\<lparr>data = ?d, label = 4, cntr_thickness = 1, lqd_level = 1 / 2,
             lqd_label = 9223372036854775808\<rparr>"
  have h: "fst (liquid_rule_body sk_erode fl_exact ?a) = Some ValueError"
    by code_simp
  have i: "int64 9" by (simp add: int64_def)
  have a: "data (apply_liquid_container_rule sk_erode fl_exact ?a) = ?d"
    using liquid_rule_failure_leaves_container [OF h] i by simp
  have h': "fst (liquid_rule_body draw_erode fl_exact ?b) = Some TypeError"
    by code_simp
  have i': "\<not> int64 9223372036854775808" by (simp add: int64_def)
  have b: "data (apply_liquid_container_rule draw_erode fl_exact ?b) = ?d"
    using liquid_rule_failure_leaves_container [OF h'] i' by simp
  show ?thesis using h i a h' i' b by simp
qed

lemma clear_rows_zero: "clear_rows img 0 = img"
proof -
  have "map (\<lambda>(i, row). row) (zip [0..<length img] img) = img"
    by (simp add: case_prod_unfold)
  then show ?thesis by (simp add: clear_rows_def slice_index_def)
qed

text \<open>
  At level 1.0 the fill line is 0, no row is cleared, and every cell of the eroded cavity
  gets the liquid label.
\<close>

lemma liquid_rule_full_level:
  assumes lvl: "lqd_level self = 1" and fl0: "fl 0 = 0" and lab: "int64 (lqd_label self)"
    and er: "erode (cntr_thickness self) (map (map (\<lambda>v. v div label self)) (data self)) = Inr eroded_img"
    and ok: "list_all (in_shape (data self)) (true_idx eroded_img)"
    and ij: "(i, j) \<in> set (true_idx eroded_img)"
  shows "data (apply_liquid_container_rule erode fl self) ! i ! j = lqd_label self"
proof -
  have ne: "map fst (true_idx eroded_img) \<noteq> []" using ij by auto
  from assign_idx_ok [OF int64_minus_one ok] obtain data1 where
    d1: "assign_idx (data self) (true_idx eroded_img) (- 1) = Inr data1" by blast
  have "list_all (in_shape data1) (true_idx eroded_img)"
    using ok in_shape_assign [OF d1] by (simp add: list_all_iff)
  from assign_idx_ok [OF lab this] obtain data2 where
    d2: "assign_idx data1 (true_idx eroded_img) (lqd_label self) = Inr data2" by blast
  have body: "liquid_rule_body erode fl self = (None, data2)"
    using er ne d1 d2 lvl fl0
    by (simp add: liquid_rule_body_def Let_def py_int_def clear_rows_zero)
  have sh: "in_shape (data self) (i, j)" using ok ij by (simp add: list_all_iff)
  then have i: "i < length data1" "j < length (data1 ! i)"
    using assign_idx_shape [OF d1] by (simp_all add: in_shape_def)
  have "data2 ! i ! j = lqd_label self"
    using assign_idx_cell [OF d2 i] ij by simp
  then show ?thesis by (simp add: apply_liquid_container_rule_def body)
qed


text \<open>
  Claim C6 does not hold of the code at level 0.0. The fill line \<open>e_fill\<close> is computed
  from the cavity's row extent but applied as an absolute row index (\<open>[:e_fill, :]\<close> counts
  from the top of the raster, not from the cavity's first row). For the container below,
  eroded by \<open>disk(1)\<close> of \<open>skimage.morphology\<close>, the cavity is the five cells of rows
  1 to 3 around the centre; at level 0.0 the rule marks one of them void and gives the
  liquid label 9 to the other four, in two rows. The float arithmetic is exact here:
  \<open>1 - 0.0\<close> is 1.0 and its product with the row extent 2 is 2.0.
\<close>

theorem liquid_rule_level_zero_fills:
  "sk_erode 1 (map (map (\<lambda>v. v div 4))
       [[0, 0, 4, 0, 0], [0, 4, 4, 4, 0], [4, 4, 4, 4, 4], [0, 4, 4, 4, 0], [0, 0, 4, 0, 0]])
     = Inr [[False, False, False, False, False], [False, False, True, False, False],
            [False, True, True, True, False], [False, False, True, False, False],
            [False, False, False, False, False]]
   \<and> data (apply_liquid_container_rule sk_erode fl_exact
          \<lparr>data = [[0, 0, 4, 0, 0], [0, 4, 4, 4, 0], [4, 4, 4, 4, 4], [0, 4, 4, 4, 0], [0, 0, 4, 0, 0]],
           label = 4, cntr_thickness = 1, lqd_level = 0, lqd_label = 9\<rparr>)
       = [[0, 0, 4, 0, 0], [0, 4, - 1, 4, 0], [4, 9, 9, 9, 4], [0, 4, 9, 4, 0], [0, 0, 4, 0, 0]]"
  by code_simp


section \<open>Properties of the overlap rule\<close>

lemma escape_fields:
  "passes (escape s p d0) = passes s"
  "ol_ctr (escape s p d0) = ol_ctr s"
  "pose_list (escape s p d0) = pose_list s"
  "pose_vals (escape s p d0) = pose_vals s"
  "escapes (escape s p d0) = escapes s + 1"
  "LATERAL_OSC_FLAG (escape s p d0)"
  "\<not> row_shift (escape s p d0)"
  "\<not> col_shift (escape s p d0)"
  "store (escape s p d0) p = (fst (store s p) - (d0 + 1), snd (store s p))"
  by (simp_all add: escape_def)

lemma osc_check_cases:
  assumes "osc_check s p d0 = Inr s'"
  shows "(2 \<le> ol_ctr s \<and> osc_cond s p \<and> s' = escape s p d0)
       \<or> (\<not> (2 \<le> ol_ctr s \<and> osc_cond s p) \<and> s' = s)"
  using assms by (auto simp: osc_check_def split: if_splits)

lemma osc_check_flags:
  assumes "osc_check s p d0 = Inr s'"
  shows "passes s' = passes s" and "ol_ctr s' = ol_ctr s" and "pose_list s' = pose_list s"
    and "s' = s \<or> escapes s' = escapes s + 1 \<and> LATERAL_OSC_FLAG s' \<and> \<not> row_shift s' \<and> \<not> col_shift s'
           \<and> 2 \<le> ol_ctr s"
    and "pose_vals s' = pose_vals s"
  using osc_check_cases [OF assms] by (auto simp: escape_fields)

lemma recheck_fields:
  "passes (recheck env canvas bag_obj p s) = passes s"
  "ol_ctr (recheck env canvas bag_obj p s) = ol_ctr s + 1"
  "escapes (recheck env canvas bag_obj p s) = escapes s"
  "LATERAL_OSC_FLAG (recheck env canvas bag_obj p s) = LATERAL_OSC_FLAG s"
  "row_shift (recheck env canvas bag_obj p s) = row_shift s"
  "col_shift (recheck env canvas bag_obj p s) = col_shift s"
  "pose_list (recheck env canvas bag_obj p s) = pose_list s"
  "store (recheck env canvas bag_obj p s) = store s"
  "pose_vals (recheck env canvas bag_obj p s) = pose_vals s"
  by (simp_all add: recheck_def Let_def)

lemma pass_shift_fields:
  assumes "pass_shift label_fn s p = Inr (s1, d0)"
  shows "passes s1 = passes s + 1" and "ol_ctr s1 = ol_ctr s" and "escapes s1 = escapes s"
    and "LATERAL_OSC_FLAG s1 = LATERAL_OSC_FLAG s" and "row_shift s1 = row_shift s"
    and "col_shift s1 = col_shift s" and "pose_list s1 = pose_list s"
    and "pose_vals s1 = pose_vals s"
  using assms
  by (auto simp: pass_shift_def Let_def split: sum.splits)

lemma append_pose_fields:
  "passes (append_pose s p) = passes s"
  "ol_ctr (append_pose s p) = ol_ctr s"
  "escapes (append_pose s p) = escapes s"
  "LATERAL_OSC_FLAG (append_pose s p) = LATERAL_OSC_FLAG s"
  "row_shift (append_pose s p) = row_shift s"
  "col_shift (append_pose s p) = col_shift s"
  "store (append_pose s p) = store s"
  "pose_list (append_pose s p) = pose_list s @ [p]"
  "pose_vals (append_pose s p) = pose_vals s @ [store s p]"
  by (simp_all add: append_pose_def)

lemma overlap_pass_cases:
  assumes "overlap_pass label_fn env canvas bag_obj p s = Inr (s', brk)"
  obtains (ground) s1 d0 where "pass_shift label_fn s p = Inr (s1, d0)"
      "ground_break env bag_obj s1 p" "s' = s1" "brk"
  | (cont) s1 d0 s2 where "pass_shift label_fn s p = Inr (s1, d0)"
      "\<not> ground_break env bag_obj s1 p"
      "osc_check (append_pose s1 p) p d0 = Inr s2"
      "s' = recheck env canvas bag_obj p s2" "brk \<longleftrightarrow> ol_ctr s' = 10"
proof (cases "pass_shift label_fn s p")
  case (Inl e)
  then show ?thesis using assms by (simp add: overlap_pass_def)
next
  case (Inr r)
  obtain s1 d0 where r: "r = (s1, d0)" by (cases r)
  note ps = Inr [unfolded r]
  show ?thesis
  proof (cases "ground_break env bag_obj s1 p")
    case True
    then have "s' = s1" "brk" using assms ps by (simp_all add: overlap_pass_def)
    then show ?thesis using ground ps True by blast
  next
    case False
    show ?thesis
    proof (cases "osc_check (append_pose s1 p) p d0")
      case (Inl e)
      then show ?thesis using assms ps False by (simp add: overlap_pass_def)
    next
      case s2: (Inr s2)
      then have "s' = recheck env canvas bag_obj p s2" "brk \<longleftrightarrow> ol_ctr s' = 10"
        using assms ps False by (auto simp: overlap_pass_def)
      then show ?thesis using cont ps False s2 by blast
    qed
  qed
qed

lemma overlap_pass_counts:
  assumes "overlap_pass label_fn env canvas bag_obj p s = Inr (s', brk)"
  shows "passes s' = passes s + 1"
    and "ol_ctr s' = ol_ctr s \<or> ol_ctr s' = ol_ctr s + 1"
    and "\<not> brk \<Longrightarrow> ol_ctr s' = ol_ctr s + 1 \<and> ol_ctr s' \<noteq> 10"
    and "brk \<Longrightarrow> ol_ctr s' = ol_ctr s \<or> ol_ctr s' = 10"
proof -
  show "passes s' = passes s + 1"
    using assms by (cases rule: overlap_pass_cases)
      (auto simp: recheck_fields append_pose_fields pass_shift_fields dest: osc_check_flags(1))
  show "ol_ctr s' = ol_ctr s \<or> ol_ctr s' = ol_ctr s + 1"
    using assms by (cases rule: overlap_pass_cases)
      (auto simp: recheck_fields append_pose_fields pass_shift_fields dest: osc_check_flags(2))
  show "ol_ctr s' = ol_ctr s + 1 \<and> ol_ctr s' \<noteq> 10" if "\<not> brk"
    using assms that by (cases rule: overlap_pass_cases)
      (auto simp: recheck_fields append_pose_fields pass_shift_fields dest: osc_check_flags(2))
  show "ol_ctr s' = ol_ctr s \<or> ol_ctr s' = 10" if "brk"
    using assms that by (cases rule: overlap_pass_cases)
      (auto simp: recheck_fields append_pose_fields pass_shift_fields dest: osc_check_flags(2))
qed

lemma overlap_while_terminates:
  assumes "ol_ctr s < 10"
  shows "\<exists>r. overlap_while label_fn env canvas bag_obj p s = Some r
           \<and> (\<forall>s'. r = Inr s' \<longrightarrow> passes s' + ol_ctr s \<le> passes s + 10 \<and> ol_ctr s' \<le> 10)"
  using assms
proof (induction "10 - ol_ctr s" arbitrary: s)
  case 0
  then show ?case by simp
next
  case (Suc n)
  show ?case
  proof (cases "OVERLAP_FLAG s")
    case False
    then have "overlap_while label_fn env canvas bag_obj p s = Some (Inr s)"
      by (subst overlap_while.simps) simp
    then show ?thesis using Suc.prems by simp
  next
    case ov: True
    show ?thesis
    proof (cases "overlap_pass label_fn env canvas bag_obj p s")
      case (Inl e)
      then have "overlap_while label_fn env canvas bag_obj p s = Some (Inl e)"
        using ov by (subst overlap_while.simps) simp
      then show ?thesis by simp
    next
      case (Inr r)
      obtain s' brk where r: "r = (s', brk)" by (cases r)
      note pass = Inr [unfolded r]
      note cnt = overlap_pass_counts [OF pass]
      show ?thesis
      proof (cases brk)
        case True
        then have "overlap_while label_fn env canvas bag_obj p s = Some (Inr s')"
          using ov pass by (subst overlap_while.simps) simp
        moreover have "passes s' + ol_ctr s \<le> passes s + 10" using cnt(1) Suc.prems by simp
        moreover have "ol_ctr s' \<le> 10" using cnt(4) [OF True] Suc.prems by auto
        ultimately show ?thesis by simp
      next
        case False
        then have unf: "overlap_while label_fn env canvas bag_obj p s
                         = overlap_while label_fn env canvas bag_obj p s'"
          using ov pass by (subst overlap_while.simps) simp
        have c': "ol_ctr s' = ol_ctr s + 1" "ol_ctr s' \<noteq> 10" using cnt(3) [OF False] by simp_all
        then have lt: "ol_ctr s' < 10" using Suc.prems by simp
        have n: "n = 10 - ol_ctr s'" using Suc.hyps(2) c' by simp
        from Suc.hyps(1) [OF n lt] obtain r' where
          r': "overlap_while label_fn env canvas bag_obj p s' = Some r'"
              "\<forall>s''. r' = Inr s'' \<longrightarrow> passes s'' + ol_ctr s' \<le> passes s' + 10 \<and> ol_ctr s'' \<le> 10"
          by blast
        have "\<forall>s''. r' = Inr s'' \<longrightarrow> passes s'' + ol_ctr s \<le> passes s + 10 \<and> ol_ctr s'' \<le> 10"
          using r'(2) c' cnt(1) by auto
        then show ?thesis using unf r'(1) by simp
      qed
    qed
  qed
qed

lemma overlap_init_fields:
  "ol_ctr (overlap_init env canvas bag_obj rs cs lat) = 0"
  "passes (overlap_init env canvas bag_obj rs cs lat) = 0"
  "escapes (overlap_init env canvas bag_obj rs cs lat) = 0"
  "LATERAL_OSC_FLAG (overlap_init env canvas bag_obj rs cs lat) = lat"
  "row_shift (overlap_init env canvas bag_obj rs cs lat) = rs"
  "col_shift (overlap_init env canvas bag_obj rs cs lat) = cs"
  "store (overlap_init env canvas bag_obj rs cs lat) = (\<lambda>_. pose bag_obj)"
  "pose_list (overlap_init env canvas bag_obj rs cs lat) = [0]"
  "pose_vals (overlap_init env canvas bag_obj rs cs lat) = [pose bag_obj]"
  "OVERLAP_FLAG (overlap_init env canvas bag_obj rs cs lat)
     = fst (get_overlap env canvas (pose bag_obj) (data bag_obj))"
  by (simp_all add: overlap_init_def Let_def)

lemma run_shape_grammar_overlap_terminates:
  "\<exists>r. run_shape_grammar_overlap label_fn env canvas bag_obj rs cs lat = Some r
       \<and> (\<forall>s. r = Inr s \<longrightarrow> passes s \<le> 10 \<and> ol_ctr s \<le> 10)"
proof -
  have "ol_ctr (overlap_init env canvas bag_obj rs cs lat) < 10"
    by (simp add: overlap_init_fields)
  from overlap_while_terminates [OF this, of label_fn env canvas bag_obj 0]
  show ?thesis by (simp add: run_shape_grammar_overlap_def overlap_init_fields)
qed












section \<open>Properties of the gravity rule\<close>

lemma gravity_inner_terminates:
  assumes "g_ol_ctr st \<le> 10"
  shows "\<exists>r. gravity_inner label_fn env prev_pose st = Some r
           \<and> (\<forall>st'. r = Inr st' \<longrightarrow> g_ol_ctr st' \<le> 10 \<and> g_drop_ctr st' = g_drop_ctr st)"
  using assms
proof (induction "11 - g_ol_ctr st" arbitrary: st)
  case 0
  then show ?case by simp
next
  case (Suc n)
  show ?case
  proof (cases "g_overlap st")
    case False
    then have "gravity_inner label_fn env prev_pose st = Some (Inr st)"
      by (subst gravity_inner.simps) simp
    then show ?thesis using Suc.prems by simp
  next
    case ov: True
    from run_shape_grammar_overlap_terminates
    obtain r0 where r0: "run_shape_grammar_overlap label_fn env (g_ws_bag st) (g_obj st) True True
                            (g_lat_osc st) = Some r0"
      by blast
    show ?thesis
    proof (cases r0)
      case (Inl e)
      then have "gravity_inner label_fn env prev_pose st = Some (Inl e)"
        using ov r0 by (subst gravity_inner.simps) simp
      then show ?thesis by simp
    next
      case (Inr s)
      define bag_obj where "bag_obj = (g_obj st)\<lparr>pose := store s 0\<rparr>"
      define ov' where "ov' = get_overlap env (g_ws_bag st) (pose bag_obj) (data bag_obj)"
      define st1 where "st1 = st\<lparr>g_obj := bag_obj, g_ol_ctr := g_ol_ctr st + 1,
                                     g_lat_osc := LATERAL_OSC_FLAG s, g_overlap := fst ov',
                                     g_osc_cond := (fst (pose bag_obj) = fst prev_pose
                                                     \<and> snd (pose bag_obj) = snd prev_pose)\<rparr>"
      have unf: "gravity_inner label_fn env prev_pose st =
          (if g_ol_ctr st1 > 10 then Some (Inr (st1\<lparr>g_ol_ctr := 0, g_overlap := False\<rparr>))
           else gravity_inner label_fn env prev_pose st1)"
        using ov r0 Inr
        by (subst gravity_inner.simps) (simp add: Let_def st1_def ov'_def bag_obj_def)
      have f: "g_ol_ctr st1 = g_ol_ctr st + 1" "g_drop_ctr st1 = g_drop_ctr st"
        by (simp_all add: st1_def)
      show ?thesis
      proof (cases "g_ol_ctr st1 > 10")
        case True
        then show ?thesis using unf f by simp
      next
        case False
        then have le: "g_ol_ctr st1 \<le> 10" by simp
        have n: "n = 11 - g_ol_ctr st1" using Suc.hyps(2) f by simp
        from Suc.hyps(1) [OF n le] show ?thesis using unf False f by simp
      qed
    qed
  qed
qed

lemma ground_branch_total:
  "\<exists>r. ground_branch label_fn env st = Some r
       \<and> (\<forall>st'. r = Inr st' \<longrightarrow> g_ol_ctr st' = g_ol_ctr st \<and> g_drop_ctr st' = g_drop_ctr st)"
proof -
  define bag_obj where "bag_obj = (g_obj st)\<lparr>pose := (fst (pose (g_obj st))
       - (fst (pose (g_obj st)) + fst (dim_px (g_obj st)) - ground_y env), snd (pose (g_obj st)))\<rparr>"
  define ov where "ov = get_overlap env (g_ws_bag st) (pose bag_obj) (data bag_obj)"
  define st1 where "st1 = st\<lparr>g_obj := bag_obj, g_overlap := fst ov\<rparr>"
  show ?thesis
  proof (cases "fst ov")
    case False
    then have "ground_branch label_fn env st = Some (Inr st1)"
      by (simp add: ground_branch_def Let_def st1_def ov_def bag_obj_def)
    then show ?thesis by (simp add: st1_def)
  next
    case True
    from run_shape_grammar_overlap_terminates
    obtain r0 where r0: "run_shape_grammar_overlap label_fn env (g_ws_bag st) bag_obj False True
                            (g_lat_osc st) = Some r0"
      by blast
    show ?thesis
    proof (cases r0)
      case (Inl e)
      then have "ground_branch label_fn env st = Some (Inl e)"
        using True r0 by (simp add: ground_branch_def Let_def st1_def ov_def bag_obj_def)
      then show ?thesis by simp
    next
      case (Inr s)
      define bag_obj' where "bag_obj' = bag_obj\<lparr>pose := store s 0\<rparr>"
      from place_cells [of "g_ws_bag st" "pose bag_obj'" "data bag_obj'"]
      obtain canvas where pl: "place_object_in_bag (g_ws_bag st) (pose bag_obj') (data bag_obj') = Inr canvas"
        by blast
      have "ground_branch label_fn env st
           = Some (Inr (st1\<lparr>g_obj := bag_obj', g_ws_bag := canvas, g_lat_osc := LATERAL_OSC_FLAG s\<rparr>))"
        using True r0 Inr pl
        by (simp add: ground_branch_def Let_def st1_def ov_def bag_obj_def bag_obj'_def)
      then show ?thesis by (simp add: st1_def)
    qed
  qed
qed

lemma gravity_while_terminates:
  assumes "g_ol_ctr st \<le> 10" and "g_drop_ctr st \<le> 50"
  shows "\<exists>r. gravity_while sheet_branch label_fn env z_inc st = Some r
           \<and> (\<forall>st'. r = Inr st' \<longrightarrow> g_drop_ctr st' \<le> 50)"
  using assms
proof (induction "50 - g_drop_ctr st" arbitrary: st)
  case 0
  then have "gravity_while sheet_branch label_fn env z_inc st = Some (Inr st)"
    by (subst gravity_while.simps) simp
  then show ?case using "0.prems" by simp
next
  case (Suc n)
  then have lt: "g_drop_ctr st < 50" by simp
  define prev_pose where "prev_pose = pose (g_obj st)"
  define st1 where "st1 = st\<lparr>g_osc_cond := False, g_lat_osc := False, g_drop_ctr := g_drop_ctr st + 1,
                      g_obj := (g_obj st)\<lparr>pose := (fst prev_pose + z_inc, snd prev_pose)\<rparr>\<rparr>"
  have f1: "g_drop_ctr st1 = g_drop_ctr st + 1" "g_ol_ctr st1 = g_ol_ctr st"
    by (simp_all add: st1_def)
  have IH: "\<exists>r. gravity_while sheet_branch label_fn env z_inc t = Some r
           \<and> (\<forall>st'. r = Inr st' \<longrightarrow> g_drop_ctr st' \<le> 50)"
    if "g_drop_ctr t = g_drop_ctr st + 1" "g_ol_ctr t \<le> 10" for t
    using Suc.hyps(1) [of t] Suc.hyps(2) that lt by simp
  show ?case
  proof (cases "shape (g_obj st1) = CHR ''S''")
    case sheet: True
    show ?thesis
    proof (cases "sheet_branch (g_ws_bag st1) (g_obj st1) (g_coll st1)")
      case (Inl e)
      then have "gravity_while sheet_branch label_fn env z_inc st = Some (Inl e)"
        using lt sheet
        by (subst gravity_while.simps) (simp add: Let_def st1_def prev_pose_def)
      then show ?thesis by simp
    next
      case (Inr r)
      define st2 where "st2 = st1\<lparr>g_ws_bag := fst r, g_obj := fst (snd r), g_coll := fst (snd (snd r))\<rparr>"
      have unf: "gravity_while sheet_branch label_fn env z_inc st =
          (if snd (snd (snd r)) then Some (Inr st2)
           else gravity_while sheet_branch label_fn env z_inc st2)"
        using lt sheet Inr
        by (subst gravity_while.simps) (simp add: Let_def st1_def st2_def prev_pose_def)
      have f2: "g_drop_ctr st2 = g_drop_ctr st + 1" "g_ol_ctr st2 = g_ol_ctr st"
        by (simp_all add: st2_def f1)
      show ?thesis
      proof (cases "snd (snd (snd r))")
        case True
        then show ?thesis using unf f2 lt by simp
      next
        case False
        then show ?thesis using unf IH [of st2] f2 Suc.prems by simp
      qed
    qed
  next
    case solid: False
    define ov where "ov = get_overlap env (g_ws_bag st1) (pose (g_obj st1)) (data (g_obj st1))"
    define st2 where "st2 = st1\<lparr>g_overlap := fst ov\<rparr>"
    have f2: "g_drop_ctr st2 = g_drop_ctr st + 1" "g_ol_ctr st2 = g_ol_ctr st"
      by (simp_all add: st2_def f1)
    show ?thesis
    proof (cases "fst (pose (g_obj st1)) + fst (dim_px (g_obj st1)) \<ge> ground_y env")
      case True
      then have unf: "gravity_while sheet_branch label_fn env z_inc st = ground_branch label_fn env st2"
        using lt solid
        by (subst gravity_while.simps) (simp add: Let_def st1_def st2_def ov_def prev_pose_def)
      from ground_branch_total [of label_fn env st2] show ?thesis
        using unf f2 lt by auto
    next
      case False
      define inner where "inner = (if g_overlap st2
                          then gravity_inner label_fn env prev_pose (st2\<lparr>g_lat_osc := False\<rparr>)
                          else Some (Inr st2))"
      have unf: "gravity_while sheet_branch label_fn env z_inc st =
          Option.bind inner
            (\<lambda>r. case r of
                    Inl e \<Rightarrow> Some (Inl e)
                  | Inr st3 \<Rightarrow>
                      if g_osc_cond st3 \<or> g_lat_osc st3 then Some (Inr st3)
                      else gravity_while sheet_branch label_fn env z_inc st3)"
        using lt solid False
        by (subst gravity_while.simps) (simp add: Let_def st1_def st2_def ov_def prev_pose_def inner_def)
      have "\<exists>r. inner = Some r
           \<and> (\<forall>st'. r = Inr st' \<longrightarrow> g_ol_ctr st' \<le> 10 \<and> g_drop_ctr st' = g_drop_ctr st + 1)"
      proof (cases "g_overlap st2")
        case True
        have "g_ol_ctr (st2\<lparr>g_lat_osc := False\<rparr>) \<le> 10" using f2 Suc.prems by simp
        from gravity_inner_terminates [OF this, of label_fn env prev_pose]
        show ?thesis using True f2 by (simp add: inner_def)
      next
        case False
        then show ?thesis using f2 Suc.prems by (simp add: inner_def)
      qed
      then obtain r where r: "inner = Some r"
        "\<forall>st'. r = Inr st' \<longrightarrow> g_ol_ctr st' \<le> 10 \<and> g_drop_ctr st' = g_drop_ctr st + 1"
        by blast
      show ?thesis
      proof (cases r)
        case (Inl e)
        then show ?thesis using unf r(1) by simp
      next
        case (Inr st3)
        then have f3: "g_ol_ctr st3 \<le> 10" "g_drop_ctr st3 = g_drop_ctr st + 1" using r(2) by simp_all
        show ?thesis
        proof (cases "g_osc_cond st3 \<or> g_lat_osc st3")
          case True
          then have "gravity_while sheet_branch label_fn env z_inc st = Some (Inr st3)"
            using unf r(1) Inr by simp
          then show ?thesis using f3 lt by simp
        next
          case False
          then have "gravity_while sheet_branch label_fn env z_inc st
                     = gravity_while sheet_branch label_fn env z_inc st3"
            using unf r(1) Inr by simp
          then show ?thesis using IH [of st3] f3 by simp
        qed
      qed
    qed
  qed
qed

lemma gravity_terminates:
  "\<exists>r. run_shape_grammar_overlap_and_gravity sheet_branch label_fn env canvas bag_obj z_inc lat = Some r
       \<and> (\<forall>st. r = Inr st \<longrightarrow> g_drop_ctr st \<le> 50)"
proof -
  have "g_ol_ctr (gravity_init canvas bag_obj lat) \<le> 10" "g_drop_ctr (gravity_init canvas bag_obj lat) \<le> 50"
    by (simp_all add: gravity_init_def)
  from gravity_while_terminates [OF this, of sheet_branch label_fn env z_inc]
  obtain r where r: "gravity_while sheet_branch label_fn env z_inc (gravity_init canvas bag_obj lat) = Some r"
    "\<forall>st'. r = Inr st' \<longrightarrow> g_drop_ctr st' \<le> 50"
    by blast
  show ?thesis
  proof (cases r)
    case (Inl e)
    then show ?thesis using r(1) by (simp add: run_shape_grammar_overlap_and_gravity_def)
  next
    case (Inr st)
    define bag_obj' where "bag_obj' = adjust_for_boundaries env (g_obj st)"
    from place_cells [of "g_ws_bag st" "pose bag_obj'" "data bag_obj'"]
    obtain canvas' where pl: "place_object_in_bag (g_ws_bag st) (pose bag_obj') (data bag_obj') = Inr canvas'"
      by blast
    have "run_shape_grammar_overlap_and_gravity sheet_branch label_fn env canvas bag_obj z_inc lat
          = Some (Inr (st\<lparr>g_obj := bag_obj', g_ws_bag := canvas'\<rparr>))"
      using r(1) Inr pl by (simp add: run_shape_grammar_overlap_and_gravity_def Let_def bag_obj'_def)
    then show ?thesis using r(2) Inr by simp
  qed
qed


text \<open>
  Claim C4: both loops of the placement pipeline end, for every object and canvas. The
  overlap-resolution loop in \<open>run_shape_grammar_overlap\<close> returns after at most 10 passes,
  and the descent loop in \<open>run_shape_grammar_overlap_and_gravity\<close>, with its inner loop,
  returns after at most 50 outer steps, whatever the labelling function and the sheet
  branch compute.
\<close>

theorem placement_loops_bounded:
  "(\<exists>r. run_shape_grammar_overlap label_fn env canvas bag_obj rs cs lat = Some r
       \<and> (\<forall>s. r = Inr s \<longrightarrow> passes s \<le> 10 \<and> ol_ctr s \<le> 10))
   \<and> (\<exists>r. run_shape_grammar_overlap_and_gravity sheet_branch label_fn env canvas bag_obj z_inc lat
            = Some r
       \<and> (\<forall>st. r = Inr st \<longrightarrow> g_drop_ctr st \<le> 50))"
  using run_shape_grammar_overlap_terminates gravity_terminates by blast

theorem placement_loops_bounded_witness:
  "(\<exists>s. run_shape_grammar_overlap label_one
        \<lparr>size_px = 6, bb_h = 3, boundary = replicate 6 (replicate 6 0), extents = None\<rparr>
        [[0, 0, 0, 0, 0, 0], [0, 0, 0, 0, 0, 0], [7, 0, 0, 0, 0, 0], [7, 0, 0, 0, 0, 0], [7, 0, 0, 0, 0, 0], [0, 0, 0, 0, 0, 0]]
        \<lparr>data = [[1]], label = 1, shape = CHR ''B'', dim_px = (1, 1), pose = (4, 0), curve_pts = ((0, 0), (0, 0))\<rparr>
        True True False = Some (Inr s) \<and> passes s \<le> 10 \<and> ol_ctr s \<le> 10)
   \<and> (\<exists>st. run_shape_grammar_overlap_and_gravity (\<lambda>c b f. Inl LibraryError) label_one
        \<lparr>size_px = 6, bb_h = 3, boundary = replicate 6 (replicate 6 0), extents = None\<rparr>
        [[0, 0, 0, 0, 0, 0], [0, 0, 0, 0, 0, 0], [7, 0, 0, 0, 0, 0], [7, 0, 0, 0, 0, 0], [7, 0, 0, 0, 0, 0], [0, 0, 0, 0, 0, 0]]
        \<lparr>data = [[1]], label = 1, shape = CHR ''B'', dim_px = (1, 1), pose = (0, 0), curve_pts = ((0, 0), (0, 0))\<rparr>
        1 False = Some (Inr st) \<and> g_drop_ctr st \<le> 50)"
proof -
  have "(case run_shape_grammar_overlap label_one
        \<lparr>size_px = 6, bb_h = 3, boundary = replicate 6 (replicate 6 0), extents = None\<rparr>
        [[0, 0, 0, 0, 0, 0], [0, 0, 0, 0, 0, 0], [7, 0, 0, 0, 0, 0], [7, 0, 0, 0, 0, 0], [7, 0, 0, 0, 0, 0], [0, 0, 0, 0, 0, 0]]
        \<lparr>data = [[1]], label = 1, shape = CHR ''B'', dim_px = (1, 1), pose = (4, 0), curve_pts = ((0, 0), (0, 0))\<rparr>
        True True False of Some (Inr s) \<Rightarrow> True | _ \<Rightarrow> False)"
    by code_simp
  then obtain s where s: "run_shape_grammar_overlap label_one
        \<lparr>size_px = 6, bb_h = 3, boundary = replicate 6 (replicate 6 0), extents = None\<rparr>
        [[0, 0, 0, 0, 0, 0], [0, 0, 0, 0, 0, 0], [7, 0, 0, 0, 0, 0], [7, 0, 0, 0, 0, 0], [7, 0, 0, 0, 0, 0], [0, 0, 0, 0, 0, 0]]
        \<lparr>data = [[1]], label = 1, shape = CHR ''B'', dim_px = (1, 1), pose = (4, 0), curve_pts = ((0, 0), (0, 0))\<rparr>
        True True False = Some (Inr s)"
    by (auto split: option.splits sum.splits)
  have "(case run_shape_grammar_overlap_and_gravity (\<lambda>c b f. Inl LibraryError) label_one
        \<lparr>size_px = 6, bb_h = 3, boundary = replicate 6 (replicate 6 0), extents = None\<rparr>
        [[0, 0, 0, 0, 0, 0], [0, 0, 0, 0, 0, 0], [7, 0, 0, 0, 0, 0], [7, 0, 0, 0, 0, 0], [7, 0, 0, 0, 0, 0], [0, 0, 0, 0, 0, 0]]
        \<lparr>data = [[1]], label = 1, shape = CHR ''B'', dim_px = (1, 1), pose = (0, 0), curve_pts = ((0, 0), (0, 0))\<rparr>
        1 False of Some (Inr st) \<Rightarrow> True | _ \<Rightarrow> False)"
    by code_simp
  then obtain st where st: "run_shape_grammar_overlap_and_gravity (\<lambda>c b f. Inl LibraryError) label_one
        \<lparr>size_px = 6, bb_h = 3, boundary = replicate 6 (replicate 6 0), extents = None\<rparr>
        [[0, 0, 0, 0, 0, 0], [0, 0, 0, 0, 0, 0], [7, 0, 0, 0, 0, 0], [7, 0, 0, 0, 0, 0], [7, 0, 0, 0, 0, 0], [0, 0, 0, 0, 0, 0]]
        \<lparr>data = [[1]], label = 1, shape = CHR ''B'', dim_px = (1, 1), pose = (0, 0), curve_pts = ((0, 0), (0, 0))\<rparr>
        1 False = Some (Inr st)"
    by (auto split: option.splits sum.splits)
  from placement_loops_bounded [of label_one "\<lparr>size_px = 6, bb_h = 3, boundary = replicate 6 (replicate 6 0), extents = None\<rparr>"
      "[[0, 0, 0, 0, 0, 0], [0, 0, 0, 0, 0, 0], [7, 0, 0, 0, 0, 0], [7, 0, 0, 0, 0, 0], [7, 0, 0, 0, 0, 0], [0, 0, 0, 0, 0, 0]]"
      "\<lparr>data = [[1]], label = 1, shape = CHR ''B'', dim_px = (1, 1), pose = (4, 0), curve_pts = ((0, 0), (0, 0))\<rparr>" True True False "\<lambda>c b f. Inl LibraryError" 1]
  have "passes s \<le> 10 \<and> ol_ctr s \<le> 10" using s by auto
  moreover
  from placement_loops_bounded [of label_one "\<lparr>size_px = 6, bb_h = 3, boundary = replicate 6 (replicate 6 0), extents = None\<rparr>"
      "[[0, 0, 0, 0, 0, 0], [0, 0, 0, 0, 0, 0], [7, 0, 0, 0, 0, 0], [7, 0, 0, 0, 0, 0], [7, 0, 0, 0, 0, 0], [0, 0, 0, 0, 0, 0]]"
      "\<lparr>data = [[1]], label = 1, shape = CHR ''B'', dim_px = (1, 1), pose = (0, 0), curve_pts = ((0, 0), (0, 0))\<rparr>" True True False "\<lambda>c b f. Inl LibraryError" 1]
  have "g_drop_ctr st \<le> 50" using st by auto
  ultimately show ?thesis using s st by blast
qed

lemma set_py_slice: "set (py_slice xs a b) \<subseteq> set xs"
  unfolding py_slice_def by (meson order_trans set_take_subset set_drop_subset)

lemma get_overlap_empty:
  assumes "empty_container env canvas"
  shows "\<not> fst (get_overlap env canvas p raster)"
proof -
  define bag_data where "bag_data = clear_boundary canvas (boundary env)"
  define obj_loc where "obj_loc = map (\<lambda>row. py_slice row (snd p) (snd p + int (ncols raster)))
                        (py_slice bag_data (fst p) (fst p + int (nrows raster)))"
  define A where "A = map (take (ncols obj_loc)) (take (nrows obj_loc) raster)"
  define obj_int where "obj_int =
       map (\<lambda>(drow, lrow). map (\<lambda>(d, l). d * (if l \<noteq> 0 then 1 else 0)) (zip drow lrow)) (zip A obj_loc)"
  have z0: "\<forall>row \<in> set bag_data. \<forall>l \<in> set row. l = 0"
    using assms by (simp add: empty_container_def bag_data_def list_all_iff)
  have z: "l = 0" if "lrow \<in> set obj_loc" "l \<in> set lrow" for lrow l
  proof -
    from that(1) obtain row where row: "row \<in> set (py_slice bag_data (fst p) (fst p + int (nrows raster)))"
      and lrow: "lrow = py_slice row (snd p) (snd p + int (ncols raster))"
      by (auto simp: obj_loc_def)
    have "row \<in> set bag_data" using row by (rule set_py_slice [THEN subsetD])
    moreover have "l \<in> set row" using that(2) unfolding lrow by (rule set_py_slice [THEN subsetD])
    ultimately show ?thesis using z0 by blast
  qed
  have "v = 0" if "r \<in> set obj_int" "v \<in> set r" for r v
  proof -
    from that(1) obtain drow lrow where dl: "(drow, lrow) \<in> set (zip A obj_loc)"
      and r: "r = map (\<lambda>(d, l). d * (if l \<noteq> 0 then 1 else 0)) (zip drow lrow)"
      by (auto simp: obj_int_def)
    from that(2) r obtain d l where dl': "(d, l) \<in> set (zip drow lrow)"
      and v: "v = d * (if l \<noteq> 0 then 1 else 0)"
      by auto
    have "lrow \<in> set obj_loc" using dl by (rule set_zip_rightD)
    moreover have "l \<in> set lrow" using dl' by (rule set_zip_rightD)
    ultimately have "l = 0" by (rule z)
    then show ?thesis using v by simp
  qed
  then have "\<not> list_ex (list_ex (\<lambda>v. v \<noteq> 0)) obj_int"
    by (auto simp: list_ex_iff)
  moreover have "fst (get_overlap env canvas p raster) = list_ex (list_ex (\<lambda>v. v \<noteq> 0)) obj_int"
    by (simp add: get_overlap_def Let_def obj_int_def A_def obj_loc_def bag_data_def)
  ultimately show ?thesis by simp
qed

lemma clear_boundary_zero:
  assumes "list_all (list_all (\<lambda>v. v = 0)) canvas"
  shows "empty_container env canvas"
proof -
  have "v = 0" if "r \<in> set (clear_boundary canvas bnd)" "v \<in> set r" for r v bnd
  proof -
    from that(1) obtain i row where ir: "(i, row) \<in> set (zip [0..<length canvas] canvas)"
      and r: "r = map (\<lambda>(j, x). if i < length bnd \<and> j < length (bnd ! i) \<and> bnd ! i ! j \<noteq> 0
                                      then 0 else x) (zip [0..<length row] row)"
      by (auto simp: clear_boundary_def)
    from that(2) r obtain j x where jx: "(j, x) \<in> set (zip [0..<length row] row)"
      and v: "v = (if i < length bnd \<and> j < length (bnd ! i) \<and> bnd ! i ! j \<noteq> 0 then 0 else x)"
      by auto
    have "row \<in> set canvas" using ir by (rule set_zip_rightD)
    moreover have "x \<in> set row" using jx by (rule set_zip_rightD)
    ultimately have "x = 0" using assms by (auto simp: list_all_iff)
    then show ?thesis using v by simp
  qed
  then show ?thesis by (auto simp: empty_container_def list_all_iff)
qed

lemma gravity_while_empty:
  assumes "empty_container env (g_ws_bag st)" and "shape (g_obj st) \<noteq> CHR ''S''"
    and "g_drop_ctr st \<le> 50" and "0 \<le> z_inc"
  shows "\<exists>st'. gravity_while sheet_branch label_fn env z_inc st = Some (Inr st')
     \<and> g_ws_bag st' = g_ws_bag st \<and> dim_px (g_obj st') = dim_px (g_obj st)
     \<and> data (g_obj st') = data (g_obj st) \<and> snd (pose (g_obj st')) = snd (pose (g_obj st))
     \<and> fst (pose (g_obj st')) =
          (if g_drop_ctr st < 50
              \<and> ground_y env \<le> fst (pose (g_obj st)) + int (50 - g_drop_ctr st) * z_inc
                                 + fst (dim_px (g_obj st))
           then ground_y env - fst (dim_px (g_obj st))
           else fst (pose (g_obj st)) + int (50 - g_drop_ctr st) * z_inc)"
  using assms(1-3)
proof (induction "50 - g_drop_ctr st" arbitrary: st)
  case 0
  then have "gravity_while sheet_branch label_fn env z_inc st = Some (Inr st)"
    by (subst gravity_while.simps) simp
  then show ?case using "0.hyps" by simp
next
  case (Suc n)
  then have lt: "g_drop_ctr st < 50" by simp
  define p0 where "p0 = fst (pose (g_obj st))"
  define d0 where "d0 = fst (dim_px (g_obj st))"
  define prev_pose where "prev_pose = pose (g_obj st)"
  define st1 where "st1 = st\<lparr>g_osc_cond := False, g_lat_osc := False, g_drop_ctr := g_drop_ctr st + 1,
                      g_obj := (g_obj st)\<lparr>pose := (fst prev_pose + z_inc, snd prev_pose)\<rparr>\<rparr>"
  define ov where "ov = get_overlap env (g_ws_bag st1) (pose (g_obj st1)) (data (g_obj st1))"
  define st2 where "st2 = st1\<lparr>g_overlap := fst ov\<rparr>"
  have solid: "shape (g_obj st1) \<noteq> CHR ''S''" using Suc.prems(2) by (simp add: st1_def)
  have emp1: "empty_container env (g_ws_bag st1)" using Suc.prems(1) by (simp add: st1_def)
  have nov: "\<not> fst ov" unfolding ov_def using emp1 by (rule get_overlap_empty)
  have k: "int (50 - g_drop_ctr st) * z_inc = z_inc + int (49 - g_drop_ctr st) * z_inc"
  proof -
    have "50 - g_drop_ctr st = Suc (49 - g_drop_ctr st)" using lt by simp
    then show ?thesis by (simp add: algebra_simps)
  qed
  have k0: "0 \<le> int (49 - g_drop_ctr st) * z_inc" using assms(4) by simp
  have f2: "g_ws_bag st2 = g_ws_bag st" "dim_px (g_obj st2) = dim_px (g_obj st)"
    "data (g_obj st2) = data (g_obj st)" "pose (g_obj st2) = (p0 + z_inc, snd (pose (g_obj st)))"
    "g_drop_ctr st2 = g_drop_ctr st + 1" "shape (g_obj st2) = shape (g_obj st)"
    "g_osc_cond st2 = False" "g_lat_osc st2 = False" "g_overlap st2 = False"
    using nov by (simp_all add: st2_def st1_def prev_pose_def p0_def)
  show ?case
  proof (cases "fst (pose (g_obj st1)) + fst (dim_px (g_obj st1)) \<ge> ground_y env")
    case True
    then have unf: "gravity_while sheet_branch label_fn env z_inc st = ground_branch label_fn env st2"
      using lt solid
      by (subst gravity_while.simps) (simp add: Let_def st1_def st2_def ov_def prev_pose_def)
    define bag_obj where "bag_obj = (g_obj st2)\<lparr>pose := (fst (pose (g_obj st2))
       - (fst (pose (g_obj st2)) + fst (dim_px (g_obj st2)) - ground_y env), snd (pose (g_obj st2)))\<rparr>"
    have "\<not> fst (get_overlap env (g_ws_bag st2) (pose bag_obj) (data bag_obj))"
      using Suc.prems(1) f2(1) by (simp add: get_overlap_empty)
    then have gb: "ground_branch label_fn env st2 = Some (Inr (st2\<lparr>g_obj := bag_obj, g_overlap := False\<rparr>))"
      by (simp add: ground_branch_def Let_def bag_obj_def)
    have g: "ground_y env \<le> p0 + z_inc + d0"
      using True by (simp add: st1_def prev_pose_def p0_def d0_def)
    have cond: "ground_y env \<le> p0 + int (50 - g_drop_ctr st) * z_inc + d0"
      using g k k0 by simp
    have "fst (pose bag_obj) = ground_y env - d0"
      by (simp add: bag_obj_def f2 d0_def)
    then show ?thesis
      using unf gb cond lt f2 by (simp add: bag_obj_def p0_def d0_def)
  next
    case False
    then have g: "\<not> ground_y env \<le> p0 + z_inc + d0"
      by (simp add: st1_def prev_pose_def p0_def d0_def)
    have unf: "gravity_while sheet_branch label_fn env z_inc st =
          gravity_while sheet_branch label_fn env z_inc st2"
      using lt solid False f2(7,8,9)
      by (subst gravity_while.simps) (simp add: Let_def st1_def st2_def ov_def prev_pose_def)
    have n: "n = 50 - g_drop_ctr st2" using Suc.hyps(2) f2 by simp
    have pre: "empty_container env (g_ws_bag st2)" "shape (g_obj st2) \<noteq> CHR ''S''" "g_drop_ctr st2 \<le> 50"
      using Suc.prems lt f2 by simp_all
    from Suc.hyps(1) [OF n pre] obtain st' where
      r: "gravity_while sheet_branch label_fn env z_inc st2 = Some (Inr st')"
         "g_ws_bag st' = g_ws_bag st2" "dim_px (g_obj st') = dim_px (g_obj st2)"
         "data (g_obj st') = data (g_obj st2)" "snd (pose (g_obj st')) = snd (pose (g_obj st2))"
         "fst (pose (g_obj st')) =
          (if g_drop_ctr st2 < 50
              \<and> ground_y env \<le> fst (pose (g_obj st2)) + int (50 - g_drop_ctr st2) * z_inc
                                 + fst (dim_px (g_obj st2))
           then ground_y env - fst (dim_px (g_obj st2))
           else fst (pose (g_obj st2)) + int (50 - g_drop_ctr st2) * z_inc)"
      by blast
    have e: "50 - g_drop_ctr st2 = 49 - g_drop_ctr st" using f2 by simp
    have "fst (pose (g_obj st')) =
          (if ground_y env \<le> p0 + int (50 - g_drop_ctr st) * z_inc + d0
           then ground_y env - d0 else p0 + int (50 - g_drop_ctr st) * z_inc)"
    proof (cases "g_drop_ctr st2 < 50")
      case True
      then show ?thesis using r(6) unfolding e f2 k by (simp add: d0_def algebra_simps)
    next
      case False
      then have "g_drop_ctr st = 49" using f2 lt by simp
      then show ?thesis using r(6) g unfolding e f2 k by (simp add: d0_def)
    qed
    then show ?thesis using unf r(1-5) lt f2 by (simp add: p0_def d0_def)
  qed
qed

lemma ground_y_upper: "ground_y env = fst (upper_bound env)"
  by (simp add: ground_y_def upper_bound_def split: option.splits)

lemma adjust_for_boundaries_floor:
  "fst (pose (adjust_for_boundaries env bag_obj)) + fst (dim_px (adjust_for_boundaries env bag_obj))
     = min (fst (pose bag_obj) + fst (dim_px bag_obj)) (fst (upper_bound env))"
proof -
  define o1 where "o1 = adjust_x_low env bag_obj"
  define o2 where "o2 = adjust_x_high env o1"
  define o3 where "o3 = adjust_y_low env o2"
  define o4 where "o4 = adjust_y_high env o3"
  have 1: "fst (pose o1) + fst (dim_px o1) = fst (pose bag_obj) + fst (dim_px bag_obj)"
    by (simp add: o1_def adjust_x_low_def Let_def)
  have 2: "fst (pose o2) + fst (dim_px o2) = min (fst (pose o1) + fst (dim_px o1)) (fst (upper_bound env))"
    by (simp add: o2_def adjust_x_high_def Let_def)
  have 3: "fst (pose o3) = fst (pose o2)" "fst (dim_px o3) = fst (dim_px o2)"
    by (simp_all add: o3_def adjust_y_low_def Let_def)
  have 4: "fst (pose o4) = fst (pose o3)" "fst (dim_px o4) = fst (dim_px o3)"
    by (simp_all add: o4_def adjust_y_high_def Let_def)
  have "adjust_for_boundaries env bag_obj = o4"
    by (simp add: adjust_for_boundaries_def o4_def o3_def o2_def o1_def)
  then show ?thesis using 1 2 3 4 by simp
qed

lemma gravity_empty_container:
  assumes "empty_container env canvas" and "shape bag_obj \<noteq> CHR ''S''" and "0 \<le> z_inc"
  shows "\<exists>st. run_shape_grammar_overlap_and_gravity sheet_branch label_fn env canvas bag_obj z_inc lat
              = Some (Inr st)
     \<and> fst (pose (g_obj st)) + fst (dim_px (g_obj st))
         = min (ground_y env) (fst (pose bag_obj) + 50 * z_inc + fst (dim_px bag_obj))"
proof -
  let ?st0 = "gravity_init canvas bag_obj lat"
  have pre: "empty_container env (g_ws_bag ?st0)" "shape (g_obj ?st0) \<noteq> CHR ''S''" "g_drop_ctr ?st0 \<le> 50"
    using assms(1,2) by (simp_all add: gravity_init_def)
  from gravity_while_empty [OF pre assms(3), of sheet_branch label_fn] obtain st' where
    r: "gravity_while sheet_branch label_fn env z_inc ?st0 = Some (Inr st')"
       "dim_px (g_obj st') = dim_px (g_obj ?st0)"
       "fst (pose (g_obj st')) =
          (if g_drop_ctr ?st0 < 50
              \<and> ground_y env \<le> fst (pose (g_obj ?st0)) + int (50 - g_drop_ctr ?st0) * z_inc
                                 + fst (dim_px (g_obj ?st0))
           then ground_y env - fst (dim_px (g_obj ?st0))
           else fst (pose (g_obj ?st0)) + int (50 - g_drop_ctr ?st0) * z_inc)"
    by blast
  have sum: "fst (pose (g_obj st')) + fst (dim_px (g_obj st'))
         = min (ground_y env) (fst (pose bag_obj) + 50 * z_inc + fst (dim_px bag_obj))"
    using r(2,3) by (simp add: gravity_init_def min_def)
  define bag_obj' where "bag_obj' = adjust_for_boundaries env (g_obj st')"
  from place_cells [of "g_ws_bag st'" "pose bag_obj'" "data bag_obj'"]
  obtain canvas' where pl: "place_object_in_bag (g_ws_bag st') (pose bag_obj') (data bag_obj') = Inr canvas'"
    by blast
  have run: "run_shape_grammar_overlap_and_gravity sheet_branch label_fn env canvas bag_obj z_inc lat
          = Some (Inr (st'\<lparr>g_obj := bag_obj', g_ws_bag := canvas'\<rparr>))"
    using r(1) pl by (simp add: run_shape_grammar_overlap_and_gravity_def Let_def bag_obj'_def)
  have "fst (pose bag_obj') + fst (dim_px bag_obj')
         = min (ground_y env) (fst (pose bag_obj) + 50 * z_inc + fst (dim_px bag_obj))"
    unfolding bag_obj'_def adjust_for_boundaries_floor sum ground_y_upper by simp
  then show ?thesis using run by simp
qed

text \<open>
  Claim C5, amended: a non-sheet object dropped by the gravity rule with a non-negative
  increment into an empty container never comes to rest past the floor, and it rests with
  \<open>pose[0] + dim[0]\<close> equal to the ground row exactly whenever the descent crosses the floor
  within the 50 steps, that is when the spawn row plus \<open>50 * z_inc\<close> plus \<open>dim[0]\<close> reaches
  the ground row; otherwise it stays where the 50th step left it, above the floor.
\<close>

theorem gravity_rests_on_floor:
  assumes "empty_container env canvas" and "shape bag_obj \<noteq> CHR ''S''" and "0 \<le> z_inc"
  shows "\<exists>st. run_shape_grammar_overlap_and_gravity sheet_branch label_fn env canvas bag_obj z_inc lat
              = Some (Inr st)
     \<and> fst (pose (g_obj st)) + fst (dim_px (g_obj st)) \<le> ground_y env
     \<and> (ground_y env \<le> fst (pose bag_obj) + 50 * z_inc + fst (dim_px bag_obj)
          \<longrightarrow> fst (pose (g_obj st)) + fst (dim_px (g_obj st)) = ground_y env)
     \<and> (fst (pose bag_obj) + 50 * z_inc + fst (dim_px bag_obj) < ground_y env
          \<longrightarrow> fst (pose (g_obj st)) + fst (dim_px (g_obj st))
                = fst (pose bag_obj) + 50 * z_inc + fst (dim_px bag_obj))"
proof -
  from gravity_empty_container [OF assms, of sheet_branch label_fn lat] obtain st where
    "run_shape_grammar_overlap_and_gravity sheet_branch label_fn env canvas bag_obj z_inc lat
              = Some (Inr st)"
    "fst (pose (g_obj st)) + fst (dim_px (g_obj st))
         = min (ground_y env) (fst (pose bag_obj) + 50 * z_inc + fst (dim_px bag_obj))"
    by blast
  then show ?thesis by (intro exI [of _ st]) auto
qed

theorem gravity_rests_on_floor_witness:
  "empty_container \<lparr>size_px = 8, bb_h = 4, boundary = replicate 8 (replicate 8 0), extents = None\<rparr>
       (replicate 8 (replicate 8 0))
   \<and> CHR ''B'' \<noteq> CHR ''S'' \<and> (0::int) \<le> 50
   \<and> (\<exists>st. run_shape_grammar_overlap_and_gravity (\<lambda>c b f. Inl LibraryError) label_one
        \<lparr>size_px = 8, bb_h = 4, boundary = replicate 8 (replicate 8 0), extents = None\<rparr>
        (replicate 8 (replicate 8 0))
        \<lparr>data = [[1]], label = 1, shape = CHR ''B'', dim_px = (1, 1), pose = (0, 2), curve_pts = ((0, 0), (0, 0))\<rparr>
        50 False = Some (Inr st)
        \<and> fst (pose (g_obj st)) + fst (dim_px (g_obj st)) = 8)"
proof -
  have e: "empty_container \<lparr>size_px = 8, bb_h = 4, boundary = replicate 8 (replicate 8 0), extents = None\<rparr>
       (replicate 8 (replicate 8 0))"
    by (rule clear_boundary_zero) (simp add: list_all_iff)
  have g: "ground_y \<lparr>size_px = 8, bb_h = 4, boundary = replicate 8 (replicate 8 0), extents = None\<rparr> = 8"
    by (simp add: ground_y_def)
  from gravity_rests_on_floor [OF e, of "\<lparr>data = [[1]], label = 1, shape = CHR ''B'', dim_px = (1, 1), pose = (0, 2), curve_pts = ((0, 0), (0, 0))\<rparr>" 50 "\<lambda>c b f. Inl LibraryError" label_one False]
  show ?thesis using e unfolding g by auto
qed

text \<open>
  Claim C5, as stated, fails where the floor is more than 50 steps away: in a container
  whose ground row is 5990, an object of height 20 spawned at row 160 and dropped with the
  default increment 50 stops after the 50th step with \<open>pose[0] + dim[0] = 2680\<close>.
\<close>

theorem gravity_stops_above_floor:
  "(case run_shape_grammar_overlap_and_gravity (\<lambda>c b f. Inl LibraryError) label_one
        \<lparr>size_px = 6000, bb_h = 2990, boundary = replicate 6000 (replicate 6000 0), extents = None\<rparr>
        (replicate 6000 (replicate 6000 0))
        \<lparr>data = replicate 20 (replicate 30 4), label = 4, shape = CHR ''B'', dim_px = (20, 30),
         pose = (160, 3000), curve_pts = ((0, 0), (0, 0))\<rparr>
        50 False of
      Some (Inr st) \<Rightarrow> fst (pose (g_obj st)) + fst (dim_px (g_obj st)) = 2680
    | _ \<Rightarrow> False)
   \<and> ground_y \<lparr>size_px = 6000, bb_h = 2990, boundary = replicate 6000 (replicate 6000 0), extents = None\<rparr> = 5990"
proof -
  have e: "empty_container \<lparr>size_px = 6000, bb_h = 2990, boundary = replicate 6000 (replicate 6000 0), extents = None\<rparr>
       (replicate 6000 (replicate 6000 0))"
    by (rule clear_boundary_zero) (simp add: list_all_iff)
  have g: "ground_y \<lparr>size_px = 6000, bb_h = 2990, boundary = replicate 6000 (replicate 6000 0), extents = None\<rparr> = 5990"
    by (simp add: ground_y_def)
  from gravity_empty_container [OF e, of "\<lparr>data = replicate 20 (replicate 30 4), label = 4, shape = CHR ''B'', dim_px = (20, 30),
         pose = (160, 3000), curve_pts = ((0, 0), (0, 0))\<rparr>" 50 "\<lambda>c b f. Inl LibraryError" label_one False]
  show ?thesis unfolding g by auto
qed


section \<open>Properties of the midpoint recursion\<close>

lemma fold_min_le: "fold min xs (a::nat) \<le> a"
  by (induction xs arbitrary: a) (auto intro: order_trans [OF _ min.cobounded2])

lemma fold_min_mem_le: "x \<in> set xs \<Longrightarrow> fold min xs (a::nat) \<le> x"
proof (induction xs arbitrary: a)
  case Nil then show ?case by simp
next
  case (Cons y ys)
  show ?case
  proof (cases "x = y")
    case True
    have "fold min ys (min y a) \<le> min y a" by (rule fold_min_le)
    also have "\<dots> \<le> y" by simp
    finally show ?thesis using True by simp
  next
    case False
    then have "x \<in> set ys" using Cons.prems by simp
    then show ?thesis using Cons.IH by simp
  qed
qed

lemma fold_min_in: "fold min xs (a::nat) = a \<or> fold min xs a \<in> set xs"
proof (induction xs arbitrary: a)
  case Nil then show ?case by simp
next
  case (Cons y ys)
  from Cons.IH [of "min y a"] show ?case by (auto simp: min_def split: if_splits)
qed

lemma fold_min_hd_in: "xs \<noteq> [] \<Longrightarrow> fold min xs (hd xs) \<in> set xs" for xs :: "nat list"
  using fold_min_in [of xs "hd xs"] by (cases xs) auto

lemma takeWhile_neq_lt:
  "m \<in> set xs \<Longrightarrow> length (takeWhile (\<lambda>v. v \<noteq> m) xs) < length xs"
  by (induction xs) auto

lemma argmin_props:
  assumes "xs \<noteq> []"
  shows "argmin xs < length xs"
    and "\<forall>i < length xs. xs ! argmin xs \<le> xs ! i"
    and "\<forall>i < argmin xs. xs ! argmin xs < xs ! i"
proof -
  let ?m = "fold min xs (hd xs)"
  have mem: "?m \<in> set xs" using fold_min_hd_in [OF assms] .
  have lt: "length (takeWhile (\<lambda>v. v \<noteq> ?m) xs) < length xs"
    using mem by (rule takeWhile_neq_lt)
  show 1: "argmin xs < length xs" using lt by (simp add: argmin_def)
  have 2: "xs ! argmin xs = ?m"
    using nth_length_takeWhile [OF lt] by (simp add: argmin_def)
  show 3: "\<forall>i < length xs. xs ! argmin xs \<le> xs ! i"
    using 2 fold_min_mem_le [of _ xs "hd xs"] by simp
  show "\<forall>i < argmin xs. xs ! argmin xs < xs ! i"
  proof (intro allI impI)
    fix i assume i: "i < argmin xs"
    then have "takeWhile (\<lambda>v. v \<noteq> ?m) xs ! i \<in> set (takeWhile (\<lambda>v. v \<noteq> ?m) xs)"
      by (simp add: argmin_def)
    then have "takeWhile (\<lambda>v. v \<noteq> ?m) xs ! i \<noteq> ?m"
      using set_takeWhileD by fastforce
    then have "xs ! i \<noteq> ?m" using i by (simp add: argmin_def takeWhile_nth)
    moreover have "?m \<le> xs ! i" using 3 2 i 1 by simp
    ultimately show "xs ! argmin xs < xs ! i" using 2 by simp
  qed
qed

lemma set_free_rows: "set (free_rows canvas c) = {b. free canvas c b}"
  by (auto simp: free_rows_def free_def)

lemma sorted_free_rows: "sorted (free_rows canvas c)"
  by (simp add: free_rows_def sorted_wrt_filter)

lemma relocate_spec:
  assumes "relocate canvas (t, c) = Inr m"
  shows "snd m = c" and "free canvas c (fst m)" and "free canvas c b \<Longrightarrow> nearer (fst m) b t"
proof -
  define row_ind where "row_ind = free_rows canvas c"
  define ds where "ds = map (\<lambda>i. row_dist i t) row_ind"
  have ne: "row_ind \<noteq> []" and m: "m = (row_ind ! argmin ds, c)"
    using assms by (auto simp: relocate_def Let_def row_ind_def ds_def split: if_splits)
  have dne: "ds \<noteq> []" using ne by (simp add: ds_def)
  note A = argmin_props [OF dne]
  have k: "argmin ds < length row_ind" using A(1) by (simp add: ds_def)
  show "snd m = c" using m by simp
  have "row_ind ! argmin ds \<in> set row_ind" using k by simp
  then show "free canvas c (fst m)" using m by (simp add: row_ind_def set_free_rows)
  show "nearer (fst m) b t" if "free canvas c b"
  proof -
    from that have "b \<in> set row_ind" by (simp add: row_ind_def set_free_rows)
    then obtain j where j: "j < length row_ind" "row_ind ! j = b"
      by (auto simp: in_set_conv_nth)
    have dk: "ds ! argmin ds = row_dist (fst m) t" using k m by (simp add: ds_def)
    have dj: "ds ! j = row_dist b t" using j by (simp add: ds_def)
    have "ds ! argmin ds \<le> ds ! j" using A(2) j(1) by (simp add: ds_def)
    then have le: "row_dist (fst m) t \<le> row_dist b t" unfolding dk dj .
    show ?thesis
    proof (cases "row_dist (fst m) t = row_dist b t")
      case False
      then show ?thesis using le by (simp add: nearer_def)
    next
      case True
      have "\<not> j < argmin ds"
      proof
        assume "j < argmin ds"
        then have "ds ! argmin ds < ds ! j" using A(3) by simp
        then show False using dk dj True by simp
      qed
      then have "argmin ds \<le> j" by simp
      then have "row_ind ! argmin ds \<le> row_ind ! j"
        using sorted_free_rows [of canvas c] j(1) by (simp add: row_ind_def sorted_iff_nth_mono)
      then show ?thesis using True m j(2) by (simp add: nearer_def)
    qed
  qed
qed

lemma relocate_total:
  assumes "c < ncols canvas" and "free canvas c b"
  shows "\<exists>g. relocate canvas (t, c) = Inr (g, c)"
proof -
  have "free_rows canvas c \<noteq> []"
    using assms(2) set_free_rows [of canvas c] by auto
  then show ?thesis using assms(1) by (simp add: relocate_def Let_def)
qed

lemma relocate_in_range:
  "relocate canvas (t, c) = Inr m \<Longrightarrow> c < ncols canvas"
  by (simp add: relocate_def split: if_splits)

lemma first_child_int:
  fixes A B M T :: int
  assumes "2 * T \<le> A + B" "A + B \<le> 2 * T + 1"
    and "\<bar>M - T\<bar> < \<bar>B - T\<bar> \<or> (\<bar>M - T\<bar> = \<bar>B - T\<bar> \<and> M \<le> B)" and "M \<noteq> B"
  shows "\<bar>A - M\<bar> < \<bar>A - B\<bar> \<or> (A < B \<and> M + 1 = A)"
  using assms by (auto simp: abs_if split: if_splits)

lemma second_child_int:
  fixes A B M T :: int
  assumes "2 * T \<le> A + B" "A + B \<le> 2 * T + 1"
    and "\<bar>M - T\<bar> < \<bar>B - T\<bar> \<or> (\<bar>M - T\<bar> = \<bar>B - T\<bar> \<and> M \<le> B)" and "M \<noteq> B" and "M \<noteq> A"
  shows "\<bar>B - M\<bar> < \<bar>A - B\<bar> \<or> (A < B \<and> M + 1 = A \<and> B + M = 2 * T)"
  using assms by (auto simp: abs_if split: if_splits)

lemma half_int:
  fixes A B M :: int
  assumes "2 * M \<le> A + B" "A + B \<le> 2 * M + 1"
  shows "\<bar>A - M\<bar> \<le> \<bar>A - B\<bar>" and "\<bar>B - M\<bar> \<le> \<bar>A - B\<bar>"
    and "2 \<le> \<bar>A - B\<bar> \<Longrightarrow> \<bar>A - M\<bar> < \<bar>A - B\<bar>" and "2 \<le> \<bar>A - B\<bar> \<Longrightarrow> \<bar>B - M\<bar> < \<bar>A - B\<bar>"
    and "\<bar>A - B\<bar> \<le> 1 \<Longrightarrow> 2 * M \<le> A + M \<and> A + M \<le> 2 * M + 1"
    and "\<bar>A - B\<bar> \<le> 1 \<Longrightarrow> 2 * M \<le> B + M \<and> B + M \<le> 2 * M + 1"
  using assms by (auto simp: abs_if split: if_splits)

lemma half_nat:
  fixes x y t :: nat
  shows "2 * int ((x + y) div 2) \<le> int x + int y" and "int x + int y \<le> 2 * int ((x + y) div 2) + 1"
proof -
  have "2 * ((x + y) div 2) \<le> x + y" "x + y \<le> 2 * ((x + y) div 2) + 1" by simp_all
  then show "2 * int ((x + y) div 2) \<le> int x + int y"
    and "int x + int y \<le> 2 * int ((x + y) div 2) + 1"
    by linarith+
qed

lemma half_unique:
  fixes s m :: nat
  assumes "2 * int m \<le> int s" "int s \<le> 2 * int m + 1"
  shows "s div 2 = m"
proof -
  have "2 * m \<le> s" "s \<le> 2 * m + 1" using assms by linarith+
  then show ?thesis by simp
qed

lemma int_row_dist: "int (row_dist i r) = \<bar>int i - int r\<bar>"
  by (simp add: row_dist_def)

lemma row_dist_less: "row_dist i r < row_dist j s \<longleftrightarrow> \<bar>int i - int r\<bar> < \<bar>int j - int s\<bar>"
proof -
  have "row_dist i r < row_dist j s \<longleftrightarrow> int (row_dist i r) < int (row_dist j s)"
    by (simp only: of_nat_less_iff)
  then show ?thesis unfolding int_row_dist .
qed

lemma row_dist_le: "row_dist i r \<le> row_dist j s \<longleftrightarrow> \<bar>int i - int r\<bar> \<le> \<bar>int j - int s\<bar>"
proof -
  have "row_dist i r \<le> row_dist j s \<longleftrightarrow> int (row_dist i r) \<le> int (row_dist j s)"
    by (simp only: of_nat_le_iff)
  then show ?thesis unfolding int_row_dist .
qed

lemma row_dist_eq: "row_dist i r = row_dist j s \<longleftrightarrow> \<bar>int i - int r\<bar> = \<bar>int j - int s\<bar>"
proof -
  have "row_dist i r = row_dist j s \<longleftrightarrow> int (row_dist i r) = int (row_dist j s)"
    by (simp only: of_nat_eq_iff)
  then show ?thesis unfolding int_row_dist .
qed

lemma nearer_int:
  "nearer g b t \<longleftrightarrow>
     \<bar>int g - int t\<bar> < \<bar>int b - int t\<bar> \<or> (\<bar>int g - int t\<bar> = \<bar>int b - int t\<bar> \<and> int g \<le> int b)"
  unfolding nearer_def row_dist_less row_dist_eq by simp

lemma nearer_first_child:
  assumes "nearer rm rb ((ra + rb) div 2)" and "rm \<noteq> rb"
  shows "row_dist ra rm < row_dist ra rb \<or> (ra < rb \<and> rm + 1 = ra)"
proof -
  have "\<bar>int ra - int rm\<bar> < \<bar>int ra - int rb\<bar> \<or> (int ra < int rb \<and> int rm + 1 = int ra)"
    using half_nat [of ra rb] assms by (intro first_child_int) (simp_all add: nearer_int)
  then show ?thesis unfolding row_dist_less by linarith
qed

lemma nearer_second_child:
  assumes "nearer rm rb ((ra + rb) div 2)" and "rm \<noteq> rb" and "rm \<noteq> ra"
  shows "row_dist rb rm < row_dist ra rb \<or> (ra < rb \<and> rm + 1 = ra \<and> (rb + rm) div 2 = (ra + rb) div 2)"
proof -
  have "\<bar>int rb - int rm\<bar> < \<bar>int ra - int rb\<bar>
      \<or> (int ra < int rb \<and> int rm + 1 = int ra \<and> int rb + int rm = 2 * int ((ra + rb) div 2))"
    using half_nat [of ra rb] assms by (intro second_child_int) (simp_all add: nearer_int)
  then show ?thesis
  proof
    assume "\<bar>int rb - int rm\<bar> < \<bar>int ra - int rb\<bar>"
    then show ?thesis unfolding row_dist_less by simp
  next
    assume a: "int ra < int rb \<and> int rm + 1 = int ra \<and> int rb + int rm = 2 * int ((ra + rb) div 2)"
    then have "(rb + rm) div 2 = (ra + rb) div 2"
      by (intro half_unique) simp_all
    then show ?thesis using a by simp
  qed
qed

lemma col_span_children:
  "row_dist ca ((ca + cb) div 2) \<le> row_dist ca cb"
  "row_dist cb ((ca + cb) div 2) \<le> row_dist ca cb"
  "2 \<le> row_dist ca cb \<Longrightarrow> row_dist ca ((ca + cb) div 2) < row_dist ca cb"
  "2 \<le> row_dist ca cb \<Longrightarrow> row_dist cb ((ca + cb) div 2) < row_dist ca cb"
  "row_dist ca cb \<le> 1 \<Longrightarrow> (ca + (ca + cb) div 2) div 2 = (ca + cb) div 2"
  "row_dist ca cb \<le> 1 \<Longrightarrow> (cb + (ca + cb) div 2) div 2 = (ca + cb) div 2"
proof -
  note h = half_nat [where x = ca and y = cb]
  note H = half_int [OF h]
  show "row_dist ca ((ca + cb) div 2) \<le> row_dist ca cb" unfolding row_dist_le using H(1) .
  show "row_dist cb ((ca + cb) div 2) \<le> row_dist ca cb" unfolding row_dist_le using H(2) .
  show "row_dist ca ((ca + cb) div 2) < row_dist ca cb" if "2 \<le> row_dist ca cb"
  proof -
    have "2 \<le> \<bar>int ca - int cb\<bar>" using that int_row_dist [of ca cb] by linarith
    then show ?thesis unfolding row_dist_less by (rule H(3))
  qed
  show "row_dist cb ((ca + cb) div 2) < row_dist ca cb" if "2 \<le> row_dist ca cb"
  proof -
    have "2 \<le> \<bar>int ca - int cb\<bar>" using that int_row_dist [of ca cb] by linarith
    then show ?thesis unfolding row_dist_less by (rule H(4))
  qed
  show "(ca + (ca + cb) div 2) div 2 = (ca + cb) div 2" if "row_dist ca cb \<le> 1"
  proof -
    have "\<bar>int ca - int cb\<bar> \<le> 1" using that int_row_dist [of ca cb] by linarith
    from H(5) [OF this] show ?thesis by (intro half_unique) simp_all
  qed
  show "(cb + (ca + cb) div 2) div 2 = (ca + cb) div 2" if "row_dist ca cb \<le> 1"
  proof -
    have "\<bar>int ca - int cb\<bar> \<le> 1" using that int_row_dist [of ca cb] by linarith
    from H(6) [OF this] show ?thesis by (intro half_unique) simp_all
  qed
qed

lemma wf_descent: "wf (descent canvas)"
  by (simp add: descent_def)

lemma relocate_self:
  assumes "c < ncols canvas" and "free canvas c r"
  shows "relocate canvas (r, c) = Inr (r, c)"
proof -
  from relocate_total [OF assms, of r] obtain g where g: "relocate canvas (r, c) = Inr (g, c)"
    by blast
  have "nearer g r r" using relocate_spec(3) [OF g assms(2)] by simp
  then have "\<bar>int g - int r\<bar> \<le> 0" unfolding nearer_int by linarith
  then have "g = r" by simp
  then show ?thesis using g by simp
qed

lemma descent_children:
  assumes rel: "relocate canvas (midpoint (a, b)) = Inr m" and ma: "m \<noteq> a" and mb: "m \<noteq> b"
  shows "((a, m), (a, b)) \<in> descent canvas" and "((b, m), (a, b)) \<in> descent canvas"
proof -
  obtain ra ca where a: "a = (ra, ca)" by (cases a)
  obtain rb cb where b: "b = (rb, cb)" by (cases b)
  define cm where "cm = (ca + cb) div 2"
  define t where "t = (ra + rb) div 2"
  have mid: "midpoint (a, b) = (t, cm)" by (simp add: midpoint_def a b t_def cm_def)
  have rel': "relocate canvas (t, cm) = Inr m" using rel mid by simp
  obtain rm where m: "m = (rm, cm)" using relocate_spec(1) [OF rel'] by (cases m) auto
  have fm: "free canvas cm rm" using relocate_spec(2) [OF rel'] m by simp
  have near: "nearer rm r t" if "free canvas cm r" for r
    using relocate_spec(3) [OF rel' that] m by simp
  have cmr: "cm < ncols canvas" using relocate_in_range [OF rel'] .
  have nstop: "\<not> stops canvas (a, b)" using rel ma mb by (simp add: stops_def)
  have rm_ab: "row_meas canvas (a, b) = 1 + row_dist ra rb"
    using nstop by (simp add: row_meas_def a b)
  have cs: "col_span (a, b) = row_dist ca cb" "col_span (a, m) = row_dist ca cm"
    "col_span (b, m) = row_dist cb cm"
    by (simp_all add: col_span_def a b m)
  note C = col_span_children [where ca = ca and cb = cb, folded cm_def]
  have rml: "row_meas canvas (x, m) \<le> 1 + row_dist (fst x) rm" for x
    by (simp add: row_meas_def m)
  have rm0: "row_meas canvas (x, m) = 0" if "relocate canvas (midpoint (x, m)) = Inr m" for x
    using that by (simp add: row_meas_def stops_def)
  show "((a, m), (a, b)) \<in> descent canvas"
  proof (cases "row_dist ca cm < row_dist ca cb")
    case True
    then show ?thesis by (simp add: descent_def cs)
  next
    case False
    then have eq: "row_dist ca cm = row_dist ca cb" using C(1) by simp
    have le1: "row_dist ca cb \<le> 1" using C(3) False by linarith
    have mc: "(ca + cm) div 2 = cm" using C(5) [OF le1] .
    have set_am: "settled canvas (a, m)" using fm mc by (simp add: settled_def midpoint_def a m)
    show ?thesis
    proof (cases "settled canvas (a, b)")
      case False
      then show ?thesis using eq set_am by (simp add: descent_def cs)
    next
      case True
      then have cb: "cb = cm" and fb: "free canvas cm rb"
        by (simp_all add: settled_def midpoint_def a b cm_def)
      have neq: "rm \<noteq> rb" using mb cb by (simp add: m b)
      from nearer_first_child [OF near [OF fb, unfolded t_def] neq]
      have "row_meas canvas (a, m) < row_meas canvas (a, b)"
      proof
        assume "row_dist ra rm < row_dist ra rb"
        then show ?thesis using rml [of a] rm_ab by (simp add: a)
      next
        assume s: "ra < rb \<and> rm + 1 = ra"
        then have "(ra + rm) div 2 = rm" by (intro half_unique) simp_all
        then have "midpoint (a, m) = (rm, cm)" using mc by (simp add: midpoint_def a m)
        then have "relocate canvas (midpoint (a, m)) = Inr m"
          using relocate_self [OF cmr fm] m by simp
        then show ?thesis using rm0 rm_ab by simp
      qed
      then show ?thesis using eq set_am True by (simp add: descent_def cs)
    qed
  qed
  show "((b, m), (a, b)) \<in> descent canvas"
  proof (cases "row_dist cb cm < row_dist ca cb")
    case True
    then show ?thesis by (simp add: descent_def cs)
  next
    case False
    then have eq: "row_dist cb cm = row_dist ca cb" using C(2) by simp
    have le1: "row_dist ca cb \<le> 1" using C(4) False by linarith
    have mc: "(cb + cm) div 2 = cm" using C(6) [OF le1] .
    have set_bm: "settled canvas (b, m)" using fm mc by (simp add: settled_def midpoint_def b m)
    show ?thesis
    proof (cases "settled canvas (a, b)")
      case False
      then show ?thesis using eq set_bm by (simp add: descent_def cs)
    next
      case True
      then have cb: "cb = cm" and fb: "free canvas cm rb"
        by (simp_all add: settled_def midpoint_def a b cm_def)
      have "row_dist ca cb = 0" using eq cb by (simp add: row_dist_def)
      then have ca: "ca = cm" using cb by (simp add: row_dist_def)
      have neq: "rm \<noteq> rb" using mb cb by (simp add: m b)
      have neq': "rm \<noteq> ra" using ma ca by (simp add: m a)
      from nearer_second_child [OF near [OF fb, unfolded t_def] neq neq']
      have "row_meas canvas (b, m) < row_meas canvas (a, b)"
      proof
        assume "row_dist rb rm < row_dist ra rb"
        then show ?thesis using rml [of b] rm_ab by (simp add: b)
      next
        assume s: "ra < rb \<and> rm + 1 = ra \<and> (rb + rm) div 2 = (ra + rb) div 2"
        then have "midpoint (b, m) = (t, cm)" using mc by (simp add: midpoint_def b m t_def)
        then have "relocate canvas (midpoint (b, m)) = Inr m" using rel' by simp
        then show ?thesis using rm0 rm_ab by simp
      qed
      then show ?thesis using eq set_bm True by (simp add: descent_def cs)
    qed
  qed
qed

lemma run_midpoint_recursion_returns:
  "\<exists>r. run_midpoint_recursion line_fn canvas pts = Some r \<and> (\<forall>l. r = Inr l \<longrightarrow> l \<noteq> [])"
proof (induction pts rule: wf_induct_rule [OF wf_descent [of canvas]])
  case (1 pts)
  show ?case
  proof (cases "line_overlap line_fn canvas pts")
    case (Inl e)
    then have "run_midpoint_recursion line_fn canvas pts = Some (Inl e)"
      by (subst run_midpoint_recursion.simps) simp
    then show ?thesis by simp
  next
    case ov: (Inr ov)
    show ?thesis
    proof (cases ov)
      case False
      then have "run_midpoint_recursion line_fn canvas pts = Some (Inr [pts])"
        using ov by (subst run_midpoint_recursion.simps) simp
      then show ?thesis by simp
    next
      case True
      show ?thesis
      proof (cases "relocate canvas (midpoint pts)")
        case (Inl e)
        then have "run_midpoint_recursion line_fn canvas pts = Some (Inl e)"
          using ov True by (subst run_midpoint_recursion.simps) simp
        then show ?thesis by simp
      next
        case (Inr m)
        show ?thesis
        proof (cases "m = fst pts \<or> m = snd pts")
          case True
          then have "run_midpoint_recursion line_fn canvas pts = Some (Inr [pts])"
            using ov \<open>ov\<close> Inr by (subst run_midpoint_recursion.simps) simp
          then show ?thesis by simp
        next
          case False
          have rel: "relocate canvas (midpoint (fst pts, snd pts)) = Inr m" using Inr by simp
          from descent_children [OF rel] False
          have d: "((fst pts, m), pts) \<in> descent canvas" "((snd pts, m), pts) \<in> descent canvas"
            by simp_all
          from "1.IH" [OF d(1)] obtain r1 where
            r1: "run_midpoint_recursion line_fn canvas (fst pts, m) = Some r1"
                "\<forall>l. r1 = Inr l \<longrightarrow> l \<noteq> []" by blast
          from "1.IH" [OF d(2)] obtain r2 where
            r2: "run_midpoint_recursion line_fn canvas (snd pts, m) = Some r2"
                "\<forall>l. r2 = Inr l \<longrightarrow> l \<noteq> []" by blast
          have unf: "run_midpoint_recursion line_fn canvas pts =
              (case r1 of Inl e \<Rightarrow> Some (Inl e)
               | Inr l1 \<Rightarrow> (case r2 of Inl e \<Rightarrow> Some (Inl e) | Inr l2 \<Rightarrow> Some (Inr (l1 @ l2))))"
            using ov \<open>ov\<close> Inr False r1(1) r2(1)
            by (subst run_midpoint_recursion.simps) simp
          show ?thesis using r1(2) r2(2) unfolding unf by (auto split: sum.splits)
        qed
      qed
    qed
  qed
qed

text \<open>
  Claim C8: every call of the midpoint recursion returns, with the list of its leaf
  sub-segments or with the exception a branch raised, and it returns its own sub-segment
  unsplit in exactly two cases: the rasterized line between the two end points meets no
  occupied cell, or the line does and the relocated midpoint is one of the two end points;
  in the second case the sub-segment is accepted although it overlaps.
\<close>

theorem midpoint_recursion_returns_leaf:
  "\<exists>r. run_midpoint_recursion line_fn canvas simplex_pts = Some r
     \<and> (r = Inr [simplex_pts] \<longleftrightarrow>
          line_overlap line_fn canvas simplex_pts = Inr False
        \<or> (line_overlap line_fn canvas simplex_pts = Inr True
           \<and> (\<exists>mid_pt. relocate canvas (midpoint simplex_pts) = Inr mid_pt
                 \<and> (mid_pt = fst simplex_pts \<or> mid_pt = snd simplex_pts))))"
proof (cases "line_overlap line_fn canvas simplex_pts")
  case (Inl e)
  then have "run_midpoint_recursion line_fn canvas simplex_pts = Some (Inl e)"
    by (subst run_midpoint_recursion.simps) simp
  then show ?thesis using Inl by simp
next
  case ov: (Inr ov)
  show ?thesis
  proof (cases ov)
    case False
    then have "run_midpoint_recursion line_fn canvas simplex_pts = Some (Inr [simplex_pts])"
      using ov by (subst run_midpoint_recursion.simps) simp
    then show ?thesis using ov False by simp
  next
    case True
    show ?thesis
    proof (cases "relocate canvas (midpoint simplex_pts)")
      case (Inl e)
      then have "run_midpoint_recursion line_fn canvas simplex_pts = Some (Inl e)"
        using ov True by (subst run_midpoint_recursion.simps) simp
      then show ?thesis using ov True Inl by simp
    next
      case (Inr m)
      show ?thesis
      proof (cases "m = fst simplex_pts \<or> m = snd simplex_pts")
        case eq: True
        then have "run_midpoint_recursion line_fn canvas simplex_pts = Some (Inr [simplex_pts])"
          using ov True Inr by (subst run_midpoint_recursion.simps) simp
        then show ?thesis using ov True Inr eq by simp
      next
        case False
        from run_midpoint_recursion_returns [of line_fn canvas "(fst simplex_pts, m)"] obtain r1 where
          r1: "run_midpoint_recursion line_fn canvas (fst simplex_pts, m) = Some r1"
              "\<forall>l. r1 = Inr l \<longrightarrow> l \<noteq> []" by blast
        from run_midpoint_recursion_returns [of line_fn canvas "(snd simplex_pts, m)"] obtain r2 where
          r2: "run_midpoint_recursion line_fn canvas (snd simplex_pts, m) = Some r2"
              "\<forall>l. r2 = Inr l \<longrightarrow> l \<noteq> []" by blast
        define r where "r = (case r1 of Inl e \<Rightarrow> Inl e
               | Inr l1 \<Rightarrow> (case r2 of Inl e \<Rightarrow> Inl e | Inr l2 \<Rightarrow> Inr (l1 @ l2)))"
        have unf: "run_midpoint_recursion line_fn canvas simplex_pts = Some r"
          using ov True Inr False r1(1) r2(1)
          by (subst run_midpoint_recursion.simps) (simp add: r_def split: sum.splits)
        have "r \<noteq> Inr [simplex_pts]"
        proof
          assume a: "r = Inr [simplex_pts]"
          then obtain l1 l2 where l: "r1 = Inr l1" "r2 = Inr l2" "l1 @ l2 = [simplex_pts]"
            by (auto simp: r_def split: sum.splits)
          have "l1 \<noteq> []" "l2 \<noteq> []" using r1(2) r2(2) l by simp_all
          then have "2 \<le> length (l1 @ l2)" by (cases l1; cases l2) simp_all
          then show False using l(3) by simp
        qed
        then show ?thesis using unf ov True Inr False by simp
      qed
    qed
  qed
qed

theorem midpoint_recursion_returns_leaf_witness:
  "line_overlap sk_line
      [[0, 0, 0, 0, 0, 0], [0, 0, 0, 0, 0, 0], [0, 0, 7, 7, 0, 0], [0, 0, 7, 7, 0, 0], [0, 0, 0, 0, 0, 0]]
      ((3, 2), (1, 2)) = Inr True
   \<and> relocate [[0, 0, 0, 0, 0, 0], [0, 0, 0, 0, 0, 0], [0, 0, 7, 7, 0, 0], [0, 0, 7, 7, 0, 0], [0, 0, 0, 0, 0, 0]]
        (midpoint ((3, 2), (1, 2))) = Inr (1, 2)
   \<and> run_midpoint_recursion sk_line
        [[0, 0, 0, 0, 0, 0], [0, 0, 0, 0, 0, 0], [0, 0, 7, 7, 0, 0], [0, 0, 7, 7, 0, 0], [0, 0, 0, 0, 0, 0]]
        ((3, 2), (1, 2)) = Some (Inr [((3, 2), (1, 2))])"
proof -
  have a: "line_overlap sk_line
      [[0, 0, 0, 0, 0, 0], [0, 0, 0, 0, 0, 0], [0, 0, 7, 7, 0, 0], [0, 0, 7, 7, 0, 0], [0, 0, 0, 0, 0, 0]]
      ((3, 2), (1, 2)) = Inr True"
    by code_simp
  have b: "relocate [[0, 0, 0, 0, 0, 0], [0, 0, 0, 0, 0, 0], [0, 0, 7, 7, 0, 0], [0, 0, 7, 7, 0, 0], [0, 0, 0, 0, 0, 0]]
        (midpoint ((3, 2), (1, 2))) = Inr (1, 2)"
    by code_simp
  from midpoint_recursion_returns_leaf [of sk_line
      "[[0, 0, 0, 0, 0, 0], [0, 0, 0, 0, 0, 0], [0, 0, 7, 7, 0, 0], [0, 0, 7, 7, 0, 0], [0, 0, 0, 0, 0, 0]]"
      "((3, 2), (1, 2))"]
  have "run_midpoint_recursion sk_line
        [[0, 0, 0, 0, 0, 0], [0, 0, 0, 0, 0, 0], [0, 0, 7, 7, 0, 0], [0, 0, 7, 7, 0, 0], [0, 0, 0, 0, 0, 0]]
        ((3, 2), (1, 2)) = Some (Inr [((3, 2), (1, 2))])"
    unfolding a b by auto
  with a b show ?thesis by simp
qed


end
